theory Spec2Isabelle
  imports Main "HOL-Library.Multiset"
begin

section \<open>The round-robin pairing engine (models/pairing.py)\<close>

text \<open>
  A shallow embedding of the class \<open>Pairing\<close>. Player identifiers are Python strings,
  modelled as ASCII \<open>string\<close>s. A match is a 2-tuple of identifiers, a configuration a
  Python \<open>set\<close> of matches, the schedule a Python \<open>list\<close> of configurations. Every
  exception the source can raise is a value of \<open>error\<close>. A selection method that
  raises leaves the instance as it was, since each raise happens before the first
  mutation; a constructor that raises returns no instance.
\<close>

datatype error = IndexError | ValueError | KeyError | AttributeError

type_synonym player = string
type_synonym match = "player \<times> player"
type_synonym configuration = "match set"

record pairing =
  list_of_players :: "player list"
  initial_configuration :: "player list option"
  possibles_configurations :: "configuration list"
  played_matches :: "match set"

subsection \<open>Player numbers: \<open>int(player_id.split('_')[1])\<close>\<close>

text \<open>\<open>str.split(sep)\<close> with a one-character separator: never empty, one more field than
  there are separators.\<close>

fun str_split :: "char \<Rightarrow> string \<Rightarrow> string list" where
  "str_split sep [] = [[]]"
| "str_split sep (c # cs) =
     (if c = sep then [] # str_split sep cs
      else (case str_split sep cs of
              [] \<Rightarrow> [[c]]
            | f # fs \<Rightarrow> (c # f) # fs))"

text \<open>The characters that \<open>int\<close> strips from both ends of its argument; a character
  here is a code point below 256. Among the ASCII ones these are tab, line feed, vertical
  tab, form feed, carriage return and space (the separators 28 to 31 are not among them:
  \<open>int('\\x1c5')\<close> raises). Beyond ASCII, \<open>int\<close> reads every Unicode whitespace
  character as a space: below 256 these are next line (133) and no-break space (160).\<close>

definition is_space :: "char \<Rightarrow> bool" where
  "is_space c =
     (let n = (of_char c :: nat) in (9 \<le> n \<and> n \<le> 13) \<or> n = 32 \<or> n = 133 \<or> n = 160)"

definition is_digit :: "char \<Rightarrow> bool" where
  "is_digit c = (let n = (of_char c :: nat) in 48 \<le> n \<and> n \<le> 57)"

definition digit_value :: "char \<Rightarrow> int" where
  "digit_value c = int (of_char c) - 48"

definition strip :: "string \<Rightarrow> string" where
  "strip s = rev (dropWhile is_space (rev (dropWhile is_space s)))"

definition digits_value :: "string \<Rightarrow> int" where
  "digits_value ds = foldl (\<lambda>acc c. 10 * acc + digit_value c) 0 ds"

text \<open>Decimal digits with single underscores between digits, the digit strings \<open>int\<close>
  accepts.\<close>

fun grouped_digits :: "string \<Rightarrow> bool" where
  "grouped_digits [] = False"
| "grouped_digits [c] = is_digit c"
| "grouped_digits (c # d # cs) =
     (is_digit c \<and> (if d = CHR ''_'' then grouped_digits cs else grouped_digits (d # cs)))"

text \<open>The interpreter's default limit on the number of digits \<open>int\<close> converts: a
  longer digit string, leading zeros counted and underscores not, raises
  \<open>ValueError\<close>.\<close>

definition int_max_str_digits :: nat where
  "int_max_str_digits = 4300"

definition decimal_literal :: "string \<Rightarrow> bool" where
  "decimal_literal ds \<longleftrightarrow>
     grouped_digits ds \<and> length (filter is_digit ds) \<le> int_max_str_digits"

text \<open>\<open>int(s)\<close> in base 10: surrounding whitespace is dropped, one sign is allowed,
  then decimal digits, possibly grouped by single underscores, no more of them than the
  limit; anything else raises \<open>ValueError\<close>. Below code point 256 the only decimal
  digits are \<open>0\<close> to \<open>9\<close>. What \<open>int\<close> does further lies outside the type of
  strings used here: from code point 256 on there are more whitespace characters and more
  decimal digits, which it reads as well. The statements below on identifiers and on
  rankings are made for \<open>ascii_text\<close>: ASCII strings, short enough that the limit,
  which an interpreter may be configured without, cannot matter.\<close>

definition ascii_text :: "string \<Rightarrow> bool" where
  "ascii_text s \<longleftrightarrow> list_all (\<lambda>c. (of_char c :: nat) < 128) s \<and> length s \<le> int_max_str_digits"

definition py_int :: "string \<Rightarrow> error + int" where
  "py_int s =
     (case strip s of
        [] \<Rightarrow> Inl ValueError
      | c # cs \<Rightarrow>
          (if c = CHR ''-'' then
             (if decimal_literal cs then Inr (- digits_value (filter is_digit cs))
              else Inl ValueError)
           else if c = CHR ''+'' then
             (if decimal_literal cs then Inr (digits_value (filter is_digit cs))
              else Inl ValueError)
           else
             (if decimal_literal (c # cs) then Inr (digits_value (filter is_digit (c # cs)))
              else Inl ValueError)))"

definition get_player_number :: "player \<Rightarrow> error + int" where
  "get_player_number player_id =
     (case str_split CHR ''_'' player_id of
        _ # field # _ \<Rightarrow> py_int field
      | _ \<Rightarrow> Inl IndexError)"

text \<open>\<open>tuple(sorted([a, b], key=get_player_number))\<close>: both keys are computed, left to
  right, before the stable sort compares them; the two swap only when the second key is
  strictly smaller.\<close>

definition sorted_pair :: "player \<Rightarrow> player \<Rightarrow> error + match" where
  "sorted_pair a b =
     (case get_player_number a of
        Inl e \<Rightarrow> Inl e
      | Inr ka \<Rightarrow>
          (case get_player_number b of
             Inl e \<Rightarrow> Inl e
           | Inr kb \<Rightarrow> Inr (if kb < ka then (b, a) else (a, b))))"

subsection \<open>The circle method\<close>

text \<open>\<open>rearrange_list\<close>: \<open>[old[0], old[-1]] + old[1:-1]\<close>; indexing an empty list raises.\<close>

definition rearrange_list :: "'a list \<Rightarrow> error + 'a list" where
  "rearrange_list old_list =
     (case old_list of
        [] \<Rightarrow> Inl IndexError
      | x # _ \<Rightarrow> Inr ([x, last old_list] @ butlast (tl old_list)))"

text \<open>\<open>generate_pairing\<close>: the loop over \<open>range(int(len / 2))\<close>, seat \<open>i\<close> against seat
  \<open>-i-1\<close>, each pair sorted by player number and added to the set.\<close>

primrec generate_pairing_loop ::
  "player list \<Rightarrow> nat list \<Rightarrow> configuration \<Rightarrow> error + configuration" where
  "generate_pairing_loop l [] set_configuration = Inr set_configuration"
| "generate_pairing_loop l (i # rest) set_configuration =
     (case sorted_pair (l ! i) (l ! (length l - i - 1)) of
        Inl e \<Rightarrow> Inl e
      | Inr pair \<Rightarrow> generate_pairing_loop l rest (insert pair set_configuration))"

definition generate_pairing :: "player list \<Rightarrow> error + configuration" where
  "generate_pairing list_configuration =
     generate_pairing_loop list_configuration [0..<length list_configuration div 2] {}"

text \<open>\<open>generate_circle_configurations\<close>: the \<open>while i < len(initial_configuration)\<close> loop,
  rotating first and pairing the rotated seating, appending to
  \<open>possibles_configurations\<close>.\<close>

function circle_loop ::
  "nat \<Rightarrow> nat \<Rightarrow> player list \<Rightarrow> configuration list \<Rightarrow> error + configuration list" where
  "circle_loop n i current_configuration confs =
     (if i < n then
        (case rearrange_list current_configuration of
           Inl e \<Rightarrow> Inl e
         | Inr current' \<Rightarrow>
             (case generate_pairing current' of
                Inl e \<Rightarrow> Inl e
              | Inr current_set \<Rightarrow> circle_loop n (i + 1) current' (confs @ [current_set])))
      else Inr confs)"
  by pat_completeness auto
termination
  by (relation "measure (\<lambda>(n, i, c, a). n - i)") auto

declare circle_loop.simps [simp del]

definition generate_circle_configurations :: "pairing \<Rightarrow> error + pairing" where
  "generate_circle_configurations s =
     (case initial_configuration s of
        None \<Rightarrow> Inl AttributeError
      | Some init \<Rightarrow>
          (case circle_loop (length init) 1 init (possibles_configurations s) of
             Inl e \<Rightarrow> Inl e
           | Inr confs \<Rightarrow> Inr (s\<lparr>possibles_configurations := confs\<rparr>)))"

text \<open>\<open>randomize_players\<close> returns some permutation of the roster; the constructor is
  modelled with the outcome of the shuffle as an argument.\<close>

definition randomize_players :: "player list \<Rightarrow> player list \<Rightarrow> bool" where
  "randomize_players players shuffled \<longleftrightarrow> mset shuffled = mset players"

definition init_pairing :: "player list \<Rightarrow> pairing" where
  "init_pairing players =
     \<lparr>list_of_players = players, initial_configuration = None,
      possibles_configurations = [], played_matches = {}\<rparr>"

text \<open>\<open>Pairing(list_of_players)\<close> with \<open>new_pairing=True\<close>, the shuffle having returned
  \<open>shuffled\<close>.\<close>

definition new_pairing :: "player list \<Rightarrow> player list \<Rightarrow> error + pairing" where
  "new_pairing players shuffled =
     generate_circle_configurations
       ((init_pairing players)\<lparr>initial_configuration := Some shuffled\<rparr>)"

subsection \<open>Memory and selection\<close>

definition add_to_memory :: "pairing \<Rightarrow> configuration \<Rightarrow> pairing" where
  "add_to_memory s round_matches = s\<lparr>played_matches := played_matches s \<union> round_matches\<rparr>"

text \<open>\<open>generate_first_round_configuration\<close>: \<open>list.pop()\<close> raises on an empty list.\<close>

definition generate_first_round_configuration :: "pairing \<Rightarrow> error + configuration \<times> pairing" where
  "generate_first_round_configuration s =
     (case possibles_configurations s of
        [] \<Rightarrow> Inl IndexError
      | _ # _ \<Rightarrow>
          (let matches = last (possibles_configurations s);
               s' = s\<lparr>possibles_configurations := butlast (possibles_configurations s)\<rparr>
           in Inr (matches, add_to_memory s' matches)))"

text \<open>\<open>generate_round_configuration_from_match\<close>: the \<open>for\<close> loop over the remaining
  configurations; \<open>list.remove\<close> deletes the first equal element; falling off the loop
  returns \<open>None\<close>.\<close>

primrec from_match_loop ::
  "pairing \<Rightarrow> match \<Rightarrow> configuration list \<Rightarrow> configuration option \<times> pairing" where
  "from_match_loop s m [] = (None, s)"
| "from_match_loop s m (configuration # rest) =
     (if m \<in> configuration then
        (Some configuration,
         add_to_memory
           (s\<lparr>possibles_configurations := remove1 configuration (possibles_configurations s)\<rparr>)
           configuration)
      else from_match_loop s m rest)"

definition generate_round_configuration_from_match ::
  "pairing \<Rightarrow> match \<Rightarrow> configuration option \<times> pairing" where
  "generate_round_configuration_from_match s m = from_match_loop s m (possibles_configurations s)"

text \<open>\<open>try_to_generate_next_round\<close>: the nested loops over \<open>i\<close> and \<open>j > i\<close>. The inner
  loop either returns from the method (\<open>Some\<close>) or runs out (\<open>None\<close>).\<close>

primrec try_inner ::
  "pairing \<Rightarrow> player list \<Rightarrow> nat \<Rightarrow> nat list \<Rightarrow> (error + configuration option \<times> pairing) option" where
  "try_inner s l i [] = None"
| "try_inner s l i (j # js) =
     (case sorted_pair (l ! i) (l ! j) of
        Inl e \<Rightarrow> Some (Inl e)
      | Inr match_test \<Rightarrow>
          (if match_test \<notin> played_matches s
           then Some (Inr (generate_round_configuration_from_match s match_test))
           else try_inner s l i js))"

primrec try_outer ::
  "pairing \<Rightarrow> player list \<Rightarrow> nat list \<Rightarrow> error + configuration option \<times> pairing" where
  "try_outer s l [] = Inr (None, s)"
| "try_outer s l (i # rest) =
     (case try_inner s l i [i + 1..<length l] of
        Some r \<Rightarrow> r
      | None \<Rightarrow> try_outer s l rest)"

definition try_to_generate_next_round ::
  "pairing \<Rightarrow> player list \<Rightarrow> error + configuration option \<times> pairing" where
  "try_to_generate_next_round s list_of_players' =
     try_outer s list_of_players' [0..<length list_of_players']"

text \<open>\<open>generate_next_round_from_ranking\<close>. The ranking is a \<open>dict\<close>, modelled as an
  association list in insertion order (a \<open>dict\<close> holds each key once); \<open>sorted(keys, key=int)\<close> converts every key, in
  order, and sorts stably. \<open>not result\<close> holds for \<open>None\<close> and for an empty set.\<close>

type_synonym ranking = "(string \<times> player list) list"

primrec keys_int :: "string list \<Rightarrow> error + (int \<times> string) list" where
  "keys_int [] = Inr []"
| "keys_int (k # ks) =
     (case py_int k of
        Inl e \<Rightarrow> Inl e
      | Inr n \<Rightarrow> (case keys_int ks of Inl e \<Rightarrow> Inl e | Inr r \<Rightarrow> Inr ((n, k) # r)))"

definition sorted_keys :: "string list \<Rightarrow> error + string list" where
  "sorted_keys ks =
     (case keys_int ks of Inl e \<Rightarrow> Inl e | Inr nks \<Rightarrow> Inr (map snd (sort_key fst nks)))"

definition falsy :: "configuration option \<Rightarrow> bool" where
  "falsy result \<longleftrightarrow> result = None \<or> result = Some {}"

primrec ranking_loop ::
  "ranking \<Rightarrow> string list \<Rightarrow> player list \<Rightarrow> configuration option \<Rightarrow> pairing
     \<Rightarrow> error + configuration option \<times> pairing" where
  "ranking_loop d [] accumulated_list result s = Inr (result, s)"
| "ranking_loop d (k # ks) accumulated_list result s =
     (if \<not> falsy result then Inr (result, s)
      else (case map_of d k of
              None \<Rightarrow> Inl KeyError
            | Some players \<Rightarrow>
                (case try_to_generate_next_round s (accumulated_list @ players) of
                   Inl e \<Rightarrow> Inl e
                 | Inr (result', s') \<Rightarrow> ranking_loop d ks (accumulated_list @ players) result' s')))"

definition generate_next_round_from_ranking ::
  "pairing \<Rightarrow> ranking \<Rightarrow> error + configuration option \<times> pairing" where
  "generate_next_round_from_ranking s dict_ranking =
     (case sorted_keys (map fst dict_ranking) of
        Inl e \<Rightarrow> Inl e
      | Inr ranking_key \<Rightarrow> ranking_loop dict_ranking ranking_key [] None s)"

subsection \<open>Reconstruction\<close>

definition instantiate_pairing :: "player list \<Rightarrow> player list \<Rightarrow> match list \<Rightarrow> error + pairing" where
  "instantiate_pairing players init list_played_matches =
     (case generate_circle_configurations
             ((init_pairing players)\<lparr>initial_configuration := Some init\<rparr>) of
        Inl e \<Rightarrow> Inl e
      | Inr instance \<Rightarrow>
          (let played = played_matches instance \<union> set list_played_matches
           in Inr (instance\<lparr>played_matches := played,
                           possibles_configurations :=
                             filter (\<lambda>config. config \<inter> played = {})
                                    (possibles_configurations instance)\<rparr>)))"

subsection \<open>Sequences of selection calls\<close>

text \<open>The three selection methods a caller can invoke on one instance. A call that raises
  or returns \<open>None\<close> returns no configuration and leaves the instance unchanged.\<close>

datatype call = First_round | From_match match | From_ranking ranking

definition step :: "pairing \<Rightarrow> call \<Rightarrow> configuration option \<times> pairing" where
  "step s c =
     (case c of
        First_round \<Rightarrow>
          (case generate_first_round_configuration s of
             Inl e \<Rightarrow> (None, s)
           | Inr (matches, s') \<Rightarrow> (Some matches, s'))
      | From_match m \<Rightarrow> generate_round_configuration_from_match s m
      | From_ranking d \<Rightarrow>
          (case generate_next_round_from_ranking s d of
             Inl e \<Rightarrow> (None, s)
           | Inr (r, s') \<Rightarrow> (r, s')))"

text \<open>Running a list of calls: the configurations returned, in order, and the final
  instance.\<close>

primrec run :: "pairing \<Rightarrow> call list \<Rightarrow> configuration list \<times> pairing" where
  "run s [] = ([], s)"
| "run s (c # cs) =
     (case step s c of
        (r, s') \<Rightarrow>
          (case run s' cs of
             (rs, s'') \<Rightarrow> ((case r of None \<Rightarrow> rs | Some conf \<Rightarrow> conf # rs), s'')))"

subsection \<open>Vocabulary of the properties\<close>

text \<open>The notions the properties below are stated with: whether an identifier has a
  player number, the canonical order of a pair, the seating after a rotation, the pairing
  of a seating, and what it means for configurations to be perfect matchings and to be
  pairwise disjoint.\<close>

definition has_number :: "player \<Rightarrow> bool" where
  "has_number p = (case get_player_number p of Inl _ \<Rightarrow> False | Inr _ \<Rightarrow> True)"

text \<open>The identifiers the code can pair: ASCII text with a player number.\<close>

definition well_formed_id :: "player \<Rightarrow> bool" where
  "well_formed_id p \<longleftrightarrow> ascii_text p \<and> has_number p"

definition player_number :: "player \<Rightarrow> int" where
  "player_number p = (case get_player_number p of Inl _ \<Rightarrow> 0 | Inr n \<Rightarrow> n)"

definition canonical :: "player \<Rightarrow> player \<Rightarrow> match" where
  "canonical a b = (if player_number b < player_number a then (b, a) else (a, b))"

definition rearranged :: "'a list \<Rightarrow> 'a list" where
  "rearranged l = [hd l, last l] @ butlast (tl l)"

definition seat_pairing :: "player list \<Rightarrow> configuration" where
  "seat_pairing l = (\<lambda>i. canonical (l ! i) (l ! (length l - i - 1))) ` set [0..<length l div 2]"

definition schedule :: "player list \<Rightarrow> configuration list" where
  "schedule arr = map (\<lambda>k. seat_pairing ((rearranged ^^ k) arr)) [1..<length arr]"

definition unordered :: "match \<Rightarrow> player set" where
  "unordered m = {fst m, snd m}"

definition perfect_matching :: "player set \<Rightarrow> configuration \<Rightarrow> bool" where
  "perfect_matching P c \<longleftrightarrow>
     (\<forall>m\<in>c. fst m \<in> P \<and> snd m \<in> P \<and> fst m \<noteq> snd m
            \<and> player_number (fst m) \<le> player_number (snd m))
     \<and> (\<forall>p\<in>P. card (Set.filter (\<lambda>m. fst m = p \<or> snd m = p) c) = 1)"

primrec disjoint_configurations :: "configuration list \<Rightarrow> bool" where
  "disjoint_configurations [] = True"
| "disjoint_configurations (c # cs) = (list_all (\<lambda>d. c \<inter> d = {}) cs \<and> disjoint_configurations cs)"

definition seat_pair :: "player list \<Rightarrow> nat \<Rightarrow> match" where
  "seat_pair l i = canonical (l ! i) (l ! (length l - i - 1))"

definition round_pair :: "player list \<Rightarrow> nat \<times> nat \<Rightarrow> match" where
  "round_pair arr = (\<lambda>(k, i). seat_pair ((rearranged ^^ k) arr) i)"

text \<open>The remaining configurations are non-empty, pairwise disjoint, and disjoint from
  the played-match memory.\<close>

definition engine_invariant :: "pairing \<Rightarrow> bool" where
  "engine_invariant s \<longleftrightarrow>
     disjoint_configurations (possibles_configurations s)
     \<and> list_all (\<lambda>c. c \<noteq> {} \<and> c \<inter> played_matches s = {}) (possibles_configurations s)"

text \<open>A ranking as the code receives it: a \<open>dict\<close>, so each key once; the keys numeric
  ASCII strings; the players well-formed identifiers.\<close>

definition numeric_key :: "string \<Rightarrow> bool" where
  "numeric_key k = (case py_int k of Inl _ \<Rightarrow> False | Inr _ \<Rightarrow> True)"

definition rank_of :: "string \<Rightarrow> int" where
  "rank_of k = (case py_int k of Inl _ \<Rightarrow> 0 | Inr n \<Rightarrow> n)"

definition ranking_well_formed :: "ranking \<Rightarrow> bool" where
  "ranking_well_formed d \<longleftrightarrow>
     distinct (map fst d)
     \<and> list_all (\<lambda>kv. ascii_text (fst kv) \<and> numeric_key (fst kv) \<and> list_all well_formed_id (snd kv)) d"

subsection \<open>Ranking-weighted selection in the words of the specification\<close>

text \<open>A second description of the ranking-weighted selection, written from section 4.4 of
  the specification and not from the source, to compare the source with: sort the rank
  keys ascending; keep an accumulating pool; after appending each rank's players, scan
  the pairs \<open>(i, j)\<close>, \<open>i\<close> before \<open>j\<close> in the pool's order, in canonical form, for the
  first one that is not in the played-match memory, and select the configuration that
  contains it with the anchor-based selection; return at the first stage that yields a
  configuration, and yield nothing when no stage does.\<close>

fun ordered_pairs :: "'a list \<Rightarrow> ('a \<times> 'a) list" where
  "ordered_pairs [] = []"
| "ordered_pairs (x # xs) = map (Pair x) xs @ ordered_pairs xs"

definition scan_pairs :: "player list \<Rightarrow> match list" where
  "scan_pairs pool = map (\<lambda>ab. canonical (fst ab) (snd ab)) (ordered_pairs pool)"

text \<open>Section 4.3, select-round-containing: search the remaining schedule for the
  configuration that contains the match; if found, remove it from the remaining schedule,
  record all its matches and return it; if not, signal that there is no such round.\<close>

definition spec_select_round_containing ::
  "pairing \<Rightarrow> match \<Rightarrow> configuration option \<times> pairing" where
  "spec_select_round_containing s m =
     (case find (\<lambda>c. m \<in> c) (possibles_configurations s) of
        None \<Rightarrow> (None, s)
      | Some c \<Rightarrow>
          (Some c, s\<lparr>possibles_configurations := remove1 c (possibles_configurations s),
                      played_matches := played_matches s \<union> c\<rparr>))"

definition spec_pairwise_scan :: "pairing \<Rightarrow> player list \<Rightarrow> configuration option \<times> pairing" where
  "spec_pairwise_scan s pool =
     (case find (\<lambda>m. m \<notin> played_matches s) (scan_pairs pool) of
        None \<Rightarrow> (None, s)
      | Some m \<Rightarrow> spec_select_round_containing s m)"

definition rank_keys :: "ranking \<Rightarrow> string list" where
  "rank_keys d = sort_key rank_of (map fst d)"

definition players_of :: "ranking \<Rightarrow> string \<Rightarrow> player list" where
  "players_of d k = (case map_of d k of None \<Rightarrow> [] | Some players \<Rightarrow> players)"

primrec accumulate :: "player list \<Rightarrow> player list list \<Rightarrow> player list list" where
  "accumulate pool [] = []"
| "accumulate pool (g # gs) = (pool @ g) # accumulate (pool @ g) gs"

definition pools :: "ranking \<Rightarrow> player list list" where
  "pools d = accumulate [] (map (players_of d) (rank_keys d))"

definition spec_select_by_ranking :: "pairing \<Rightarrow> ranking \<Rightarrow> configuration option \<times> pairing" where
  "spec_select_by_ranking s d =
     (case find (\<lambda>pool. fst (spec_pairwise_scan s pool) \<noteq> None) (pools d) of
        None \<Rightarrow> (None, s)
      | Some pool \<Rightarrow> spec_pairwise_scan s pool)"

text \<open>The pairwise scan of \<open>try_to_generate_next_round\<close> as one pass over a list of
  pairs, in the order the nested loops visit them, with the failure of the sort kept.\<close>

primrec scan_raw :: "pairing \<Rightarrow> (player \<times> player) list \<Rightarrow> error + configuration option \<times> pairing" where
  "scan_raw s [] = Inr (None, s)"
| "scan_raw s (ab # rest) =
     (case sorted_pair (fst ab) (snd ab) of
        Inl e \<Rightarrow> Inl e
      | Inr m \<Rightarrow>
          (if m \<notin> played_matches s then Inr (generate_round_configuration_from_match s m)
           else scan_raw s rest))"

subsection \<open>The four-player scenario\<close>

definition scenario_players :: "player list" where
  "scenario_players = [''p_1'', ''p_2'', ''p_3'', ''p_4'']"

definition scenario_ranking :: ranking where
  "scenario_ranking =
     [(''1'', [''p_1'']), (''2'', [''p_2'']), (''3'', [''p_4'']), (''4'', [''p_3''])]"

definition scenario_c1 :: configuration where
  "scenario_c1 = {(''p_1'', ''p_3''), (''p_2'', ''p_4'')}"

definition scenario_c2 :: configuration where
  "scenario_c2 = {(''p_1'', ''p_2''), (''p_3'', ''p_4'')}"

definition scenario_c3 :: configuration where
  "scenario_c3 = {(''p_1'', ''p_4''), (''p_2'', ''p_3'')}"

definition scenario_state :: "configuration list \<Rightarrow> match set \<Rightarrow> pairing" where
  "scenario_state remaining played =
     \<lparr>list_of_players = scenario_players, initial_configuration = Some scenario_players,
      possibles_configurations = remaining, played_matches = played\<rparr>"

section \<open>Verification\<close>

subsection \<open>The schedule in closed form\<close>

lemma well_formed_numbers: "\<forall>p\<in>set l. well_formed_id p \<Longrightarrow> \<forall>p\<in>set l. has_number p"
  by (simp add: well_formed_id_def)

lemma has_numberE: "has_number p \<Longrightarrow> get_player_number p = Inr (player_number p)"
  by (auto simp: has_number_def player_number_def split: sum.splits)

lemma sorted_pair_canonical:
  "has_number a \<Longrightarrow> has_number b \<Longrightarrow> sorted_pair a b = Inr (canonical a b)"
  by (simp add: sorted_pair_def canonical_def has_numberE)

lemma rearrange_list_rearranged: "l \<noteq> [] \<Longrightarrow> rearrange_list l = Inr (rearranged l)"
  by (cases l) (simp_all add: rearrange_list_def rearranged_def)

lemma rearranged_Cons: "xs \<noteq> [] \<Longrightarrow> rearranged (x # xs) = x # last xs # butlast xs"
  by (simp add: rearranged_def)

lemma length_rearranged: "2 \<le> length l \<Longrightarrow> length (rearranged l) = length l"
  by (cases l) (auto simp: rearranged_def)

lemma set_rearranged: "2 \<le> length l \<Longrightarrow> set (rearranged l) = set l"
proof (cases l)
  case Nil
  assume "2 \<le> length l"
  with Nil show ?thesis by simp
next
  case (Cons x xs)
  assume "2 \<le> length l"
  with Cons have ne: "xs \<noteq> []" by auto
  then have "set (last xs # butlast xs) = set xs"
    by (metis append_butlast_last_id insert_is_Un list.simps(15) rotate1.simps(2) set_rotate1 sup_commute)
  with Cons ne show ?thesis by (simp add: rearranged_Cons)
qed

lemma generate_pairing_loop_eq:
  "\<forall>i\<in>set idxs. has_number (l ! i) \<and> has_number (l ! (length l - i - 1)) \<Longrightarrow>
   generate_pairing_loop l idxs acc
     = Inr (acc \<union> (\<lambda>i. canonical (l ! i) (l ! (length l - i - 1))) ` set idxs)"
  by (induction idxs arbitrary: acc) (auto simp: sorted_pair_canonical)

lemma generate_pairing_eq:
  assumes "\<forall>p\<in>set l. has_number p"
  shows "generate_pairing l = Inr (seat_pairing l)"
proof -
  have "\<forall>i\<in>set [0..<length l div 2]. has_number (l ! i) \<and> has_number (l ! (length l - i - 1))"
    using assms by (auto simp: less_mult_imp_div_less intro!: nth_mem) 
  then show ?thesis
    by (simp add: generate_pairing_def seat_pairing_def generate_pairing_loop_eq)
qed

lemma circle_loop_eq:
  "\<forall>p\<in>set cur. has_number p \<Longrightarrow> 2 \<le> length cur \<or> n \<le> i \<Longrightarrow>
   circle_loop n i cur confs
     = Inr (confs @ map (\<lambda>k. seat_pairing ((rearranged ^^ k) cur)) [1..<Suc (n - i)])"
proof (induction n i cur confs rule: circle_loop.induct)
  case (1 n i cur confs)
  show ?case
  proof (cases "i < n")
    case False
    then show ?thesis by (simp add: circle_loop.simps)
  next
    case True
    with "1.prems" have len: "2 \<le> length cur" by simp
    then have ne: "cur \<noteq> []" by auto
    have nums: "\<forall>p\<in>set (rearranged cur). has_number p"
      using "1.prems"(1) len by (simp add: set_rearranged)
    have IH: "circle_loop n (i + 1) (rearranged cur) (confs @ [seat_pairing (rearranged cur)])
       = Inr ((confs @ [seat_pairing (rearranged cur)]) @
           map (\<lambda>k. seat_pairing ((rearranged ^^ k) (rearranged cur))) [1..<Suc (n - (i + 1))])"
      using "1.IH"[OF True rearrange_list_rearranged[OF ne] generate_pairing_eq[OF nums] nums]
        len by (simp add: length_rearranged)
    have shift: "map (\<lambda>k. seat_pairing ((rearranged ^^ k) cur)) [1..<Suc (n - i)]
       = seat_pairing (rearranged cur) #
         map (\<lambda>k. seat_pairing ((rearranged ^^ k) (rearranged cur))) [1..<Suc (n - (i + 1))]"
    proof -
      have "Suc (n - (i + 1)) = n - i" using True by simp
      then have "[1..<Suc (n - i)] = 1 # map Suc [1..<Suc (n - (i + 1))]"
        using True by (simp add: upt_conv_Cons map_Suc_upt)
      then show ?thesis by (simp add: comp_def funpow_swap1)
    qed
    show ?thesis
      using True IH shift
      by (subst circle_loop.simps) (simp add: rearrange_list_rearranged[OF ne] generate_pairing_eq[OF nums])
  qed
qed

lemma generate_circle_configurations_eq:
  assumes "initial_configuration s = Some arr" "\<forall>p\<in>set arr. has_number p"
  shows "generate_circle_configurations s
     = Inr (s\<lparr>possibles_configurations := possibles_configurations s @ schedule arr\<rparr>)"
proof -
  have "2 \<le> length arr \<or> length arr \<le> 1" by arith
  from circle_loop_eq[OF assms(2) this, of "possibles_configurations s"]
  have "circle_loop (length arr) 1 arr (possibles_configurations s)
      = Inr (possibles_configurations s @ schedule arr)"
    by (cases "length arr") (simp_all add: schedule_def)
  then show ?thesis using assms(1) by (simp add: generate_circle_configurations_def)
qed

lemma last_butlast_rotate:
  assumes "xs \<noteq> []"
  shows "last xs # butlast xs = rotate (length xs - 1) xs"
proof -
  let ?ys = "last xs # butlast xs"
  have xs: "rotate1 ?ys = xs" using assms by simp
  have len: "Suc (length xs - 1) = length ?ys" using assms by simp
  have "rotate (length xs - 1) (rotate1 ?ys) = rotate1 (rotate (length xs - 1) ?ys)"
    by (rule rotate1_rotate_swap[symmetric])
  also have "\<dots> = rotate (Suc (length xs - 1)) ?ys" by simp
  also have "\<dots> = rotate (length ?ys) ?ys" by (simp only: len)
  also have "\<dots> = ?ys" by (rule rotate_id) simp
  finally show ?thesis by (simp only: xs)
qed

lemma funpow_rearranged:
  assumes "xs \<noteq> []"
  shows "(rearranged ^^ k) (x # xs) = x # rotate (k * (length xs - 1)) xs"
proof (induction k)
  case 0
  show ?case by simp
next
  case (Suc k)
  let ?r = "rotate (k * (length xs - 1)) xs"
  have ne: "?r \<noteq> []" using assms by simp
  have "(rearranged ^^ Suc k) (x # xs) = rearranged (x # ?r)"
    using Suc by simp
  also have "\<dots> = x # last ?r # butlast ?r" by (rule rearranged_Cons[OF ne])
  also have "last ?r # butlast ?r = rotate (length ?r - 1) ?r"
    by (rule last_butlast_rotate[OF ne])
  also have "\<dots> = rotate (Suc k * (length xs - 1)) xs"
    by (simp add: rotate_rotate)
  finally show ?case .
qed

lemma nth_round:
  assumes "xs \<noteq> []" "1 \<le> s" "s \<le> length xs"
  shows "(rearranged ^^ k) (x # xs) ! s = xs ! ((k * (length xs - 1) + (s - 1)) mod length xs)"
proof -
  obtain t where s: "s = Suc t" using assms(2) by (cases s) auto
  with assms(3) have "t < length xs" by simp
  then show ?thesis
    by (simp add: funpow_rearranged[OF assms(1)] s nth_rotate)
qed

lemma nth_round_0: "xs \<noteq> [] \<Longrightarrow> (rearranged ^^ k) (x # xs) ! 0 = x"
  by (simp add: funpow_rearranged)

lemma round_shift:
  fixes M :: nat
  assumes "(k * (M - 1) + a) mod M = (k' * (M - 1) + a') mod M" "0 < M"
  shows "(a + k') mod M = (a' + k) mod M"
proof -
  have e1: "k * (M - 1) + a + (k + k') = k * M + (a + k')"
    using assms(2) by (cases M) (simp_all add: algebra_simps)
  have e2: "k' * (M - 1) + a' + (k + k') = k' * M + (a' + k)"
    using assms(2) by (cases M) (simp_all add: algebra_simps)
  have "(k * (M - 1) + a + (k + k')) mod M = (k' * (M - 1) + a' + (k + k')) mod M"
    using assms(1) by (rule mod_add_cong) simp
  then show ?thesis unfolding e1 e2 by simp
qed

lemma shift_unique:
  fixes M :: nat
  assumes "(c + k') mod M = (c + k) mod M" "1 \<le> k" "k \<le> M" "1 \<le> k'" "k' \<le> M"
  shows "k = k'"
proof -
  have aux: "k = k'" if le: "k \<le> k'" and eq: "(c + k') mod M = (c + k) mod M"
    and b: "1 \<le> k" "k' \<le> M" for k k'
  proof -
    have "M dvd (c + k') - (c + k)"
      using eq le by (simp add: mod_eq_dvd_iff_nat)
    then have "M dvd k' - k" by simp
    moreover have "k' - k < M" using b le by simp
    ultimately have "k' - k = 0" by (meson dvd_imp_le not_less zero_less_iff_neq_zero)
    with le show ?thesis by simp
  qed
  show ?thesis
  proof (cases "k \<le> k'")
    case True
    then show ?thesis using aux assms by blast
  next
    case False
    then have "k' \<le> k" by simp
    then have "k' = k" using aux[of k' k] assms by simp
    then show ?thesis by simp
  qed
qed

lemma double_shift_unique:
  fixes M :: nat
  assumes "(c + 2 * k') mod M = (c + 2 * k) mod M" "odd M" "1 \<le> k" "k \<le> M" "1 \<le> k'" "k' \<le> M"
  shows "k = k'"
proof -
  have aux: "k = k'" if le: "k \<le> k'" and eq: "(c + 2 * k') mod M = (c + 2 * k) mod M"
    and b: "1 \<le> k" "k' \<le> M" for k k'
  proof -
    have "M dvd (c + 2 * k') - (c + 2 * k)"
      using eq le by (simp add: mod_eq_dvd_iff_nat)
    then have "M dvd 2 * (k' - k)" by (simp add: algebra_simps)
    moreover have "coprime M 2" using assms(2) by simp
    ultimately have "M dvd k' - k" by (simp add: coprime_dvd_mult_right_iff)
    moreover have "k' - k < M" using b le by simp
    ultimately have "k' - k = 0" by (meson dvd_imp_le not_less zero_less_iff_neq_zero)
    with le show ?thesis by simp
  qed
  show ?thesis
  proof (cases "k \<le> k'")
    case True
    then show ?thesis using aux assms by blast
  next
    case False
    then have "k' \<le> k" by simp
    then have "k' = k" using aux[of k' k] assms by simp
    then show ?thesis by simp
  qed
qed

lemma mod_add_cancel_right_nat:
  fixes M :: nat
  assumes "(a + k) mod M = (b + k) mod M" "a < M" "b < M"
  shows "a = b"
proof -
  have aux: "a = b" if "a \<le> b" "(a + k) mod M = (b + k) mod M" "b < M" for a b
  proof -
    have "(b + k) mod M = (a + k) mod M" using that(2) by simp
    then have "M dvd (b + k) - (a + k)" using that(1) by (simp add: mod_eq_dvd_iff_nat)
    then have "M dvd b - a" by simp
    moreover have "b - a < M" using that by simp
    ultimately have "b - a = 0" by (meson dvd_imp_le not_less zero_less_iff_neq_zero)
    with that show ?thesis by simp
  qed
  show ?thesis
  proof (cases "a \<le> b")
    case True
    then show ?thesis using aux assms by blast
  next
    case False
    then have "b = a" using aux[of b a] assms by simp
    then show ?thesis by simp
  qed
qed

lemma seat_pairs_inject:
  fixes xs :: "'a list"
  assumes d: "distinct (x # xs)" and odd: "odd (length xs)"
    and k: "1 \<le> k" "k \<le> length xs" and k': "1 \<le> k'" "k' \<le> length xs"
    and i: "i < Suc (length xs) div 2" and i': "i' < Suc (length xs) div 2"
    and eq: "{(rearranged ^^ k) (x # xs) ! i, (rearranged ^^ k) (x # xs) ! (length xs - i)}
           = {(rearranged ^^ k') (x # xs) ! i', (rearranged ^^ k') (x # xs) ! (length xs - i')}"
  shows "k = k' \<and> i = i'"
proof -
  define M where "M = length xs"
  define idx where "idx = (\<lambda>k s. (k * (M - 1) + (s - 1)) mod M)"
  have M: "0 < M" "odd M" using odd by (auto simp: M_def elim: oddE)
  have ne: "xs \<noteq> []" using M by (auto simp: M_def)
  have seat: "(rearranged ^^ j) (x # xs) ! s = xs ! idx j s" if "1 \<le> s" "s \<le> M" for j s
    using nth_round[OF ne that(1), of j x] that(2) by (simp add: M_def idx_def)
  have seat0: "(rearranged ^^ j) (x # xs) ! 0 = x" for j
    by (rule nth_round_0[OF ne])
  have idx_lt: "idx j s < M" for j s using M by (simp add: idx_def)
  have inxs: "xs ! idx j s \<in> set xs" for j s using idx_lt by (simp add: M_def)
  have xnot: "x \<noteq> xs ! idx j s" for j s using d inxs[of j s] by auto
  have idx_eq: "idx j s = idx j' s'" if "xs ! idx j s = xs ! idx j' s'" for j s j' s'
    using that d idx_lt[of j s] idx_lt[of j' s'] by (simp add: nth_eq_iff_index_eq M_def)
  have shift: "((s - 1) + j') mod M = ((s' - 1) + j) mod M" if "xs ! idx j s = xs ! idx j' s'"
    for j s j' s'
    using idx_eq[OF that] M(1) unfolding idx_def by (rule round_shift)
  have ib: "2 * i < M" "2 * i' < M" using i i' M(2) by (auto simp: M_def elim!: oddE)
  show ?thesis
  proof (cases "i = 0")
    case i0: True
    show ?thesis
    proof (cases "i' = 0")
      case True
      have "1 \<le> M" using M(1) by simp
      from seat[OF this order_refl]
      have "(rearranged ^^ j) (x # xs) ! (length xs - 0) = xs ! idx j M" for j
        by (simp add: M_def)
      with eq i0 True have "{x, xs ! idx k M} = {x, xs ! idx k' M}"
        by (simp add: seat0)
      then have "xs ! idx k M = xs ! idx k' M"
        using xnot by (auto simp: doubleton_eq_iff)
      from shift[OF this] have "((M - 1) + k') mod M = ((M - 1) + k) mod M" .
      then have "k = k'" using k k' by (intro shift_unique[of "M - 1" k' M k]) (simp_all add: M_def)
      with i0 True show ?thesis by simp
    next
      case False
      then have "1 \<le> i'" "i' \<le> M" "1 \<le> M - i'" "M - i' \<le> M" using ib by auto
      then have "{x, (rearranged ^^ k) (x # xs) ! (length xs - 0)} = {xs ! idx k' i', xs ! idx k' (M - i')}"
        using eq i0 by (simp add: seat seat0 M_def[symmetric])
      then have False using xnot by (auto simp: doubleton_eq_iff)
      then show ?thesis ..
    qed
  next
    case i1: False
    then have si: "1 \<le> i" "i \<le> M" "1 \<le> M - i" "M - i \<le> M" using ib by auto
    show ?thesis
    proof (cases "i' = 0")
      case True
      then have "{xs ! idx k i, xs ! idx k (M - i)} = {x, (rearranged ^^ k') (x # xs) ! (length xs - 0)}"
        using eq si by (simp add: seat seat0 M_def[symmetric])
      then have False using xnot by (auto simp: doubleton_eq_iff)
      then show ?thesis ..
    next
      case False
      then have si': "1 \<le> i'" "i' \<le> M" "1 \<le> M - i'" "M - i' \<le> M" using ib by auto
      have e: "{xs ! idx k i, xs ! idx k (M - i)} = {xs ! idx k' i', xs ! idx k' (M - i')}"
        using eq si si' by (simp add: seat M_def[symmetric])
      have sum: "(i - 1) + (M - i - 1) = M - 2" "(i' - 1) + (M - i' - 1) = M - 2"
        using si si' ib by auto
      from e consider
        (same) "xs ! idx k i = xs ! idx k' i'" "xs ! idx k (M - i) = xs ! idx k' (M - i')"
      | (cross) "xs ! idx k i = xs ! idx k' (M - i')" "xs ! idx k (M - i) = xs ! idx k' i'"
        by (auto simp: doubleton_eq_iff)
      then show ?thesis
      proof cases
        case same
        from shift[OF same(1)] shift[OF same(2)]
        have a: "((i - 1) + k') mod M = ((i' - 1) + k) mod M"
          and b: "((M - i - 1) + k') mod M = ((M - i' - 1) + k) mod M" by simp_all
        have c: "(((i - 1) + k') + ((M - i - 1) + k')) mod M
            = (((i' - 1) + k) + ((M - i' - 1) + k)) mod M"
          using a b by (rule mod_add_cong)
        have s1: "((i - 1) + k') + ((M - i - 1) + k') = (M - 2) + 2 * k'"
          using sum(1) by arith
        have s2: "((i' - 1) + k) + ((M - i' - 1) + k) = (M - 2) + 2 * k"
          using sum(2) by arith
        from c have "((M - 2) + 2 * k') mod M = ((M - 2) + 2 * k) mod M"
          unfolding s1 s2 .
        then have kk: "k = k'"
          using M(2) k k' by (intro double_shift_unique[of "M - 2" k' M k]) (simp_all add: M_def)
        from a kk have "((i - 1) + k) mod M = ((i' - 1) + k) mod M" by simp
        then have "i - 1 = i' - 1"
          using si si' ib by (intro mod_add_cancel_right_nat[of "i - 1" k M "i' - 1"]) auto
        then show ?thesis using kk si si' by auto
      next
        case cross
        from shift[OF cross(1)] shift[OF cross(2)]
        have a: "((i - 1) + k') mod M = ((M - i' - 1) + k) mod M"
          and b: "((M - i - 1) + k') mod M = ((i' - 1) + k) mod M" by simp_all
        have c: "(((i - 1) + k') + ((M - i - 1) + k')) mod M
            = (((M - i' - 1) + k) + ((i' - 1) + k)) mod M"
          using a b by (rule mod_add_cong)
        have s1: "((i - 1) + k') + ((M - i - 1) + k') = (M - 2) + 2 * k'"
          using sum(1) by arith
        have s2: "((M - i' - 1) + k) + ((i' - 1) + k) = (M - 2) + 2 * k"
          using sum(2) by arith
        from c have "((M - 2) + 2 * k') mod M = ((M - 2) + 2 * k) mod M"
          unfolding s1 s2 .
        then have kk: "k = k'"
          using M(2) k k' by (intro double_shift_unique[of "M - 2" k' M k]) (simp_all add: M_def)
        from a kk have "((i - 1) + k) mod M = ((M - i' - 1) + k) mod M" by simp
        then have "i - 1 = M - i' - 1"
          using si si' ib by (intro mod_add_cancel_right_nat[of "i - 1" k M "M - i' - 1"]) auto
        then have False using si si' ib by arith
        then show ?thesis ..
      qed
    qed
  qed
qed

lemma seat_pairing_image: "seat_pairing l = seat_pair l ` {..<length l div 2}"
  by (auto simp: seat_pairing_def seat_pair_def)

lemma unordered_canonical: "unordered (canonical a b) = {a, b}"
  by (auto simp: unordered_def canonical_def)

lemma canonical_contains:
  "(fst (canonical a b) = p \<or> snd (canonical a b) = p) \<longleftrightarrow> (a = p \<or> b = p)"
  by (auto simp: canonical_def)

lemma canonical_ordered: "player_number (fst (canonical a b)) \<le> player_number (snd (canonical a b))"
  by (simp add: canonical_def)

lemma canonical_distinct: "a \<noteq> b \<Longrightarrow> fst (canonical a b) \<noteq> snd (canonical a b)"
  by (auto simp: canonical_def)

lemma canonical_members: "fst (canonical a b) \<in> {a, b} \<and> snd (canonical a b) \<in> {a, b}"
  by (simp add: canonical_def)

lemma seat_pairing_perfect:
  assumes d: "distinct l" and e: "even (length l)"
  shows "perfect_matching (set l) (seat_pairing l)"
proof -
  define N where "N = length l"
  have mirror: "i < N div 2 \<Longrightarrow> i < N \<and> N - i - 1 < N \<and> i \<noteq> N - i - 1" for i
    using e by (auto simp: N_def elim!: evenE)
  have part1: "fst m \<in> set l \<and> snd m \<in> set l \<and> fst m \<noteq> snd m
       \<and> player_number (fst m) \<le> player_number (snd m)" if "m \<in> seat_pairing l" for m
  proof -
    from that obtain i where i: "i < N div 2" and m: "m = seat_pair l i"
      by (auto simp: seat_pairing_image N_def)
    from mirror[OF i] have ne: "l ! i \<noteq> l ! (N - i - 1)"
      using d by (simp add: nth_eq_iff_index_eq N_def)
    have "l ! i \<in> set l" "l ! (N - i - 1) \<in> set l"
      using mirror[OF i] by (simp_all add: N_def)
    then show ?thesis
      using canonical_members[of "l ! i" "l ! (N - i - 1)"] canonical_distinct[OF ne]
        canonical_ordered[of "l ! i" "l ! (N - i - 1)"]
      by (auto simp: m seat_pair_def N_def)
  qed
  have part2: "card (Set.filter (\<lambda>m. fst m = p \<or> snd m = p) (seat_pairing l)) = 1"
    if "p \<in> set l" for p
  proof -
    from that obtain s where s: "s < N" "l ! s = p" by (auto simp: in_set_conv_nth N_def)
    define j where "j = min s (N - 1 - s)"
    have j: "j < N div 2" using s(1) e by (auto simp: j_def N_def min_def elim!: evenE)
    have iff: "(fst (seat_pair l i) = p \<or> snd (seat_pair l i) = p) \<longleftrightarrow> i = j"
      if i: "i < N div 2" for i
    proof -
      have "(l ! i = p \<or> l ! (N - i - 1) = p) \<longleftrightarrow> (i = s \<or> N - i - 1 = s)"
        using d s mirror[OF i] by (auto simp: nth_eq_iff_index_eq N_def)
      also have "\<dots> \<longleftrightarrow> i = j"
        using i s(1) e by (auto simp: j_def min_def N_def elim!: evenE)
      finally show ?thesis by (simp add: seat_pair_def canonical_contains N_def)
    qed
    have "Set.filter (\<lambda>m. fst m = p \<or> snd m = p) (seat_pairing l) = {seat_pair l j}"
    proof (intro set_eqI iffI)
      fix m assume "m \<in> Set.filter (\<lambda>m. fst m = p \<or> snd m = p) (seat_pairing l)"
      then obtain i where "i < N div 2" "m = seat_pair l i" "fst m = p \<or> snd m = p"
        by (auto simp: seat_pairing_image N_def)
      with iff[of i] show "m \<in> {seat_pair l j}" by simp
    next
      fix m assume "m \<in> {seat_pair l j}"
      then show "m \<in> Set.filter (\<lambda>m. fst m = p \<or> snd m = p) (seat_pairing l)"
        using iff[OF j] j by (auto simp: seat_pairing_image N_def)
    qed
    then show ?thesis by simp
  qed
  show ?thesis unfolding perfect_matching_def using part1 part2 by blast
qed

lemma two_le_length_Cons:
  assumes "2 \<le> length l"
  obtains x xs where "l = x # xs" "xs \<noteq> []"
proof (cases l)
  case Nil
  with assms show ?thesis by simp
next
  case (Cons x xs)
  with assms have "xs \<noteq> []" by auto
  with Cons that show ?thesis by blast
qed

lemma length_funpow_rearranged: "2 \<le> length l \<Longrightarrow> length ((rearranged ^^ k) l) = length l"
  by (induction k) (simp_all add: length_rearranged)

lemma set_funpow_rearranged: "2 \<le> length l \<Longrightarrow> set ((rearranged ^^ k) l) = set l"
  by (induction k) (simp_all add: set_rearranged length_funpow_rearranged)

lemma distinct_funpow_rearranged:
  assumes "2 \<le> length l" "distinct l"
  shows "distinct ((rearranged ^^ k) l)"
proof -
  from assms(1) obtain x xs where l: "l = x # xs" and ne: "xs \<noteq> []"
    by (rule two_le_length_Cons)
  show ?thesis using assms(2) by (simp add: l funpow_rearranged[OF ne])
qed

lemma round_pairs_inject:
  assumes "distinct arr" "even (length arr)" "2 \<le> length arr"
    and "1 \<le> k" "k < length arr" "1 \<le> k'" "k' < length arr"
    and "i < length arr div 2" "i' < length arr div 2"
    and "unordered (seat_pair ((rearranged ^^ k) arr) i)
       = unordered (seat_pair ((rearranged ^^ k') arr) i')"
  shows "k = k' \<and> i = i'"
proof -
  from assms(3) obtain x xs where arr: "arr = x # xs" and ne: "xs \<noteq> []"
    by (rule two_le_length_Cons)
  have odd: "odd (length xs)" using assms(2) by (simp add: arr)
  have len: "length ((rearranged ^^ j) arr) = length arr" for j
    by (rule length_funpow_rearranged[OF assms(3)])
  from assms(10) have "{(rearranged ^^ k) (x # xs) ! i, (rearranged ^^ k) (x # xs) ! (length xs - i)}
           = {(rearranged ^^ k') (x # xs) ! i', (rearranged ^^ k') (x # xs) ! (length xs - i')}"
    using len by (simp add: seat_pair_def unordered_canonical arr)
  then show ?thesis
    using assms by (intro seat_pairs_inject[of x xs k k' i i']) (simp_all add: arr odd)
qed

lemma length_schedule: "length (schedule arr) = length arr - 1"
  by (simp add: schedule_def)

lemma nth_schedule:
  "j < length arr - 1 \<Longrightarrow> schedule arr ! j = seat_pairing ((rearranged ^^ Suc j) arr)"
  by (simp add: schedule_def)

lemma disjoint_configurations_nth:
  "disjoint_configurations cs \<longleftrightarrow>
     (\<forall>i<length cs. \<forall>j<length cs. i \<noteq> j \<longrightarrow> cs ! i \<inter> cs ! j = {})"
proof (induction cs)
  case Nil
  show ?case by simp
next
  case (Cons c cs)
  show ?case (is "?L \<longleftrightarrow> ?R")
  proof
    assume L: ?L
    show ?R
    proof (intro allI impI)
      fix i j assume "i < length (c # cs)" "j < length (c # cs)" "i \<noteq> j"
      with L Cons.IH show "(c # cs) ! i \<inter> (c # cs) ! j = {}"
        by (cases i; cases j) (auto simp: list_all_iff)
    qed
  next
    assume R: ?R
    have "c \<inter> d = {}" if "d \<in> set cs" for d
    proof -
      from that obtain j where "j < length cs" "cs ! j = d" by (auto simp: in_set_conv_nth)
      with R[rule_format, of 0 "Suc j"] show ?thesis by simp
    qed
    moreover have "cs ! i \<inter> cs ! j = {}" if "i < length cs" "j < length cs" "i \<noteq> j" for i j
      using R[rule_format, of "Suc i" "Suc j"] that by simp
    ultimately show ?L using Cons.IH by (simp add: list_all_iff)
  qed
qed

lemma schedule_disjoint:
  assumes "distinct arr" "even (length arr)" "2 \<le> length arr"
  shows "disjoint_configurations (schedule arr)"
  unfolding disjoint_configurations_nth
proof (intro allI impI)
  fix a b assume a: "a < length (schedule arr)" and b: "b < length (schedule arr)" and ne: "a \<noteq> b"
  have len: "length ((rearranged ^^ j) arr) = length arr" for j
    by (rule length_funpow_rearranged[OF assms(3)])
  show "schedule arr ! a \<inter> schedule arr ! b = {}"
  proof (rule ccontr)
    assume "schedule arr ! a \<inter> schedule arr ! b \<noteq> {}"
    then obtain m where "m \<in> schedule arr ! a" "m \<in> schedule arr ! b" by auto
    then have "m \<in> seat_pairing ((rearranged ^^ Suc a) arr)"
      "m \<in> seat_pairing ((rearranged ^^ Suc b) arr)"
      using a b by (simp_all only: length_schedule nth_schedule)
    then have "m \<in> seat_pair ((rearranged ^^ Suc a) arr) ` {..<length arr div 2}"
      "m \<in> seat_pair ((rearranged ^^ Suc b) arr) ` {..<length arr div 2}"
      by (simp_all only: seat_pairing_image len)
    then obtain i i' where i: "i < length arr div 2" "i' < length arr div 2"
      and m: "m = seat_pair ((rearranged ^^ Suc a) arr) i"
             "m = seat_pair ((rearranged ^^ Suc b) arr) i'"
      by blast
    from m have "unordered (seat_pair ((rearranged ^^ Suc a) arr) i)
        = unordered (seat_pair ((rearranged ^^ Suc b) arr) i')" by simp
    from round_pairs_inject[OF assms _ _ _ _ i this] a b
    have "Suc a = Suc b" by (simp add: length_schedule)
    with ne show False by simp
  qed
qed

lemma schedule_perfect:
  assumes "distinct arr" "even (length arr)" "2 \<le> length arr" "c \<in> set (schedule arr)"
  shows "perfect_matching (set arr) c"
proof -
  from assms(4) obtain k where c: "c = seat_pairing ((rearranged ^^ k) arr)"
    by (auto simp: schedule_def)
  have "perfect_matching (set ((rearranged ^^ k) arr)) (seat_pairing ((rearranged ^^ k) arr))"
    using assms by (intro seat_pairing_perfect)
      (simp_all add: distinct_funpow_rearranged length_funpow_rearranged)
  then show ?thesis by (simp add: c set_funpow_rearranged[OF assms(3)])
qed

lemma schedule_nonempty:
  assumes "2 \<le> length arr" "c \<in> set (schedule arr)"
  shows "c \<noteq> {}"
proof -
  from assms(2) obtain k where c: "c = seat_pairing ((rearranged ^^ k) arr)"
    by (auto simp: schedule_def)
  have "0 < length ((rearranged ^^ k) arr) div 2"
    using assms(1) by (simp add: length_funpow_rearranged)
  then have "seat_pair ((rearranged ^^ k) arr) 0 \<in> c"
    unfolding c seat_pairing_image by blast
  then show ?thesis by auto
qed

lemma Union_schedule:
  assumes "2 \<le> length arr"
  shows "\<Union>(set (schedule arr)) = round_pair arr ` ({1..<length arr} \<times> {..<length arr div 2})"
proof -
  have len: "length ((rearranged ^^ j) arr) = length arr" for j
    by (rule length_funpow_rearranged[OF assms])
  have "\<Union>(set (schedule arr))
      = (\<Union>k\<in>{1..<length arr}. seat_pair ((rearranged ^^ k) arr) ` {..<length arr div 2})"
    by (simp add: schedule_def seat_pairing_image len)
  also have "\<dots> = round_pair arr ` ({1..<length arr} \<times> {..<length arr div 2})"
    unfolding round_pair_def by force
  finally show ?thesis .
qed

lemma card_rounds:
  assumes "even (N::nat)"
  shows "card ({1..<N} \<times> {..<N div 2}) = N * (N - 1) div 2"
proof -
  from assms obtain h where N: "N = 2 * h" by (auto elim: evenE)
  show ?thesis by (simp add: N card_cartesian_product algebra_simps)
qed

lemma schedule_card:
  assumes "distinct arr" "even (length arr)" "2 \<le> length arr"
  shows "card (\<Union>(set (schedule arr))) = length arr * (length arr - 1) div 2"
proof -
  have "inj_on (round_pair arr) ({1..<length arr} \<times> {..<length arr div 2})"
  proof (rule inj_onI)
    fix p q assume p: "p \<in> {1..<length arr} \<times> {..<length arr div 2}"
      and q: "q \<in> {1..<length arr} \<times> {..<length arr div 2}"
      and eq: "round_pair arr p = round_pair arr q"
    obtain k i where pk: "p = (k, i)" by (cases p)
    obtain k' i' where qk: "q = (k', i')" by (cases q)
    from eq have "unordered (seat_pair ((rearranged ^^ k) arr) i)
        = unordered (seat_pair ((rearranged ^^ k') arr) i')"
      by (simp add: round_pair_def pk qk)
    from round_pairs_inject[OF assms _ _ _ _ _ _ this] p q
    show "p = q" by (simp add: pk qk)
  qed
  then have "card (round_pair arr ` ({1..<length arr} \<times> {..<length arr div 2}))
      = card ({1..<length arr} \<times> {..<length arr div 2})"
    by (rule card_image)
  then show ?thesis
    by (simp only: Union_schedule[OF assms(3)] card_rounds[OF assms(2)])
qed

lemma schedule_covers:
  assumes "distinct arr" "even (length arr)" "2 \<le> length arr"
  shows "unordered ` \<Union>(set (schedule arr)) = {B. B \<subseteq> set arr \<and> card B = 2}"
proof -
  let ?I = "{1..<length arr} \<times> {..<length arr div 2}"
  let ?U = "unordered ` \<Union>(set (schedule arr))"
  let ?T = "{B. B \<subseteq> set arr \<and> card B = 2}"
  have U: "?U = (unordered \<circ> round_pair arr) ` ?I"
    by (simp add: Union_schedule[OF assms(3)] image_comp)
  have "inj_on (unordered \<circ> round_pair arr) ?I"
  proof (rule inj_onI)
    fix p q assume p: "p \<in> ?I" and q: "q \<in> ?I"
      and eq: "(unordered \<circ> round_pair arr) p = (unordered \<circ> round_pair arr) q"
    obtain k i where pk: "p = (k, i)" by (cases p)
    obtain k' i' where qk: "q = (k', i')" by (cases q)
    from eq have "unordered (seat_pair ((rearranged ^^ k) arr) i)
        = unordered (seat_pair ((rearranged ^^ k') arr) i')"
      by (simp add: round_pair_def pk qk)
    from round_pairs_inject[OF assms _ _ _ _ _ _ this] p q
    show "p = q" by (simp add: pk qk)
  qed
  then have "card ((unordered \<circ> round_pair arr) ` ?I) = card ?I"
    by (rule card_image)
  then have cardU: "card ?U = length arr * (length arr - 1) div 2"
    by (simp only: U card_rounds[OF assms(2)])
  have sub: "?U \<subseteq> ?T"
  proof
    fix B assume "B \<in> ?U"
    then obtain c m where c: "c \<in> set (schedule arr)" and m: "m \<in> c" and B: "B = unordered m"
      by auto
    from schedule_perfect[OF assms c] m
    have "fst m \<in> set arr" "snd m \<in> set arr" "fst m \<noteq> snd m"
      by (auto simp: perfect_matching_def)
    then show "B \<in> ?T" by (simp add: B unordered_def)
  qed
  have "card ?T = length arr choose 2"
    using n_subsets[of "set arr" 2] assms(1) by (simp add: distinct_card)
  then have cardT: "card ?T = length arr * (length arr - 1) div 2"
    by (simp add: choose_two)
  have "finite ?T" by simp
  from card_subset_eq[OF this sub] cardU cardT show ?thesis by simp
qed

subsection \<open>Completeness of the circle method\<close>

text \<open>
  C1. For an arrangement of an even number \<open>N \<ge> 2\<close> of distinct players, each a
  well-formed identifier, \<open>generate_circle_configurations\<close> returns a schedule of exactly \<open>N - 1\<close>
  configurations; each is a perfect matching of the roster (every match joins two
  different roster players in canonical order, and every player is in exactly one match);
  the matches of all configurations, read as unordered pairs, are exactly the two-element
  subsets of the roster; there are \<open>N * (N - 1) / 2\<close> matches in all, and no match is in
  two configurations.
\<close>

theorem circle_method_complete:
  assumes "even (length arr)" "2 \<le> length arr" "distinct arr" "\<forall>p\<in>set arr. well_formed_id p"
    and "initial_configuration s = Some arr" "possibles_configurations s = []"
  shows "\<exists>sched. generate_circle_configurations s = Inr (s\<lparr>possibles_configurations := sched\<rparr>)
           \<and> length sched = length arr - 1
           \<and> (\<forall>c\<in>set sched. perfect_matching (set arr) c)
           \<and> unordered ` \<Union>(set sched) = {B. B \<subseteq> set arr \<and> card B = 2}
           \<and> card (\<Union>(set sched)) = length arr * (length arr - 1) div 2
           \<and> disjoint_configurations sched"
proof (intro exI conjI)
  show "generate_circle_configurations s = Inr (s\<lparr>possibles_configurations := schedule arr\<rparr>)"
    using generate_circle_configurations_eq[OF assms(5) well_formed_numbers[OF assms(4)]] assms(6)
    by simp
  show "length (schedule arr) = length arr - 1" by (rule length_schedule)
  show "\<forall>c\<in>set (schedule arr). perfect_matching (set arr) c"
    using schedule_perfect[OF assms(3) assms(1) assms(2)] by blast
  show "unordered ` \<Union>(set (schedule arr)) = {B. B \<subseteq> set arr \<and> card B = 2}"
    by (rule schedule_covers[OF assms(3) assms(1) assms(2)])
  show "card (\<Union>(set (schedule arr))) = length arr * (length arr - 1) div 2"
    by (rule schedule_card[OF assms(3) assms(1) assms(2)])
  show "disjoint_configurations (schedule arr)"
    by (rule schedule_disjoint[OF assms(3) assms(1) assms(2)])
qed

theorem circle_method_complete_witness:
  "\<exists>sched. generate_circle_configurations (scenario_state [] {})
             = Inr ((scenario_state [] {})\<lparr>possibles_configurations := sched\<rparr>)
           \<and> length sched = length scenario_players - 1
           \<and> (\<forall>c\<in>set sched. perfect_matching (set scenario_players) c)
           \<and> unordered ` \<Union>(set sched) = {B. B \<subseteq> set scenario_players \<and> card B = 2}
           \<and> card (\<Union>(set sched)) = length scenario_players * (length scenario_players - 1) div 2
           \<and> disjoint_configurations sched"
proof -
  have h1: "even (length scenario_players)" by (simp add: scenario_players_def)
  have h2: "2 \<le> length scenario_players" by (simp add: scenario_players_def)
  have h3: "distinct scenario_players" by (simp add: scenario_players_def)
  have h4: "\<forall>p\<in>set scenario_players. well_formed_id p" by code_simp
  have h5: "initial_configuration (scenario_state [] {}) = Some scenario_players"
    by (simp add: scenario_state_def)
  have h6: "possibles_configurations (scenario_state [] {}) = []"
    by (simp add: scenario_state_def)
  show ?thesis by (rule circle_method_complete[OF h1 h2 h3 h4 h5 h6])
qed

subsection \<open>Selection by an anchor match\<close>

lemma from_match_loop_find:
  "from_match_loop s m cs =
     (case find (\<lambda>c. m \<in> c) cs of
        None \<Rightarrow> (None, s)
      | Some c \<Rightarrow>
          (Some c, add_to_memory (s\<lparr>possibles_configurations := remove1 c (possibles_configurations s)\<rparr>) c))"
  by (induction cs) simp_all

lemma from_match_spec:
  "generate_round_configuration_from_match s m = spec_select_round_containing s m"
  by (cases "find (\<lambda>c. m \<in> c) (possibles_configurations s)")
     (simp_all add: generate_round_configuration_from_match_def from_match_loop_find
        spec_select_round_containing_def add_to_memory_def)

lemma disjoint_configurations_same:
  assumes "disjoint_configurations cs" "c \<in> set cs" "d \<in> set cs" "m \<in> c" "m \<in> d"
  shows "c = d"
proof -
  from assms(2,3) obtain i j where ij: "i < length cs" "cs ! i = c" "j < length cs" "cs ! j = d"
    by (auto simp: in_set_conv_nth)
  have "i = j"
  proof (rule ccontr)
    assume "i \<noteq> j"
    with assms(1) ij have "c \<inter> d = {}" by (auto simp: disjoint_configurations_nth)
    with assms(4,5) show False by auto
  qed
  with ij show ?thesis by simp
qed

lemma disjoint_configurations_remove1_notin:
  "disjoint_configurations cs \<Longrightarrow> c \<in> set cs \<Longrightarrow> c \<noteq> {} \<Longrightarrow> c \<notin> set (remove1 c cs)"
  by (induction cs) (auto simp: list_all_iff)

text \<open>
  C7. \<open>generate_round_configuration_from_match\<close> returns a configuration exactly when
  some remaining configuration contains the match. It then returns a remaining
  configuration that contains the match, removes it from the remaining schedule and adds
  all of its matches to the played-match memory; when the remaining configurations are
  pairwise disjoint it is the only one that contains the match and it no longer occurs in
  the remaining schedule. When no remaining configuration contains the match it returns
  \<open>None\<close> and leaves the instance unchanged.
\<close>

theorem from_match_selects:
  assumes "generate_round_configuration_from_match s m = (r, s')"
  shows "(r \<noteq> None \<longleftrightarrow> (\<exists>c\<in>set (possibles_configurations s). m \<in> c))
       \<and> (\<forall>c. r = Some c \<longrightarrow>
              c \<in> set (possibles_configurations s) \<and> m \<in> c
            \<and> s' = s\<lparr>possibles_configurations := remove1 c (possibles_configurations s),
                     played_matches := played_matches s \<union> c\<rparr>
            \<and> (disjoint_configurations (possibles_configurations s) \<longrightarrow>
                 (\<forall>d\<in>set (possibles_configurations s). m \<in> d \<longrightarrow> d = c)
                 \<and> c \<notin> set (possibles_configurations s')))
       \<and> (r = None \<longrightarrow> s' = s)"
proof (cases "find (\<lambda>c. m \<in> c) (possibles_configurations s)")
  case None
  then have "(r, s') = (None, s)"
    using assms
    by (simp only: generate_round_configuration_from_match_def from_match_loop_find option.case)
  then have r: "r = None" and s': "s' = s" by simp_all
  from None have "\<not> (\<exists>c\<in>set (possibles_configurations s). m \<in> c)"
    by (simp add: find_None_iff)
  then show ?thesis by (simp add: r s')
next
  case (Some c)
  then have "(r, s') = (Some c,
      add_to_memory (s\<lparr>possibles_configurations := remove1 c (possibles_configurations s)\<rparr>) c)"
    using assms
    by (simp only: generate_round_configuration_from_match_def from_match_loop_find option.case)
  then have r: "r = Some c"
    and s': "s' = s\<lparr>possibles_configurations := remove1 c (possibles_configurations s),
                    played_matches := played_matches s \<union> c\<rparr>"
    by (simp_all add: add_to_memory_def)
  from Some have c: "c \<in> set (possibles_configurations s)" "m \<in> c"
    by (auto simp: find_Some_iff)
  have p': "possibles_configurations s' = remove1 c (possibles_configurations s)"
    by (simp add: s')
  have u: "d = c" if "disjoint_configurations (possibles_configurations s)"
    "d \<in> set (possibles_configurations s)" "m \<in> d" for d
    by (rule disjoint_configurations_same[OF that(1) that(2) c(1) that(3) c(2)])
  have n: "c \<notin> set (possibles_configurations s')"
    if "disjoint_configurations (possibles_configurations s)"
    unfolding p' using that c(1)
  proof (rule disjoint_configurations_remove1_notin)
    show "c \<noteq> {}" using c(2) by blast
  qed
  have first: "r \<noteq> None \<longleftrightarrow> (\<exists>c\<in>set (possibles_configurations s). m \<in> c)"
    using r c by blast
  have third: "r = None \<longrightarrow> s' = s" using r by simp
  have second: "\<forall>c'. r = Some c' \<longrightarrow>
              c' \<in> set (possibles_configurations s) \<and> m \<in> c'
            \<and> s' = s\<lparr>possibles_configurations := remove1 c' (possibles_configurations s),
                     played_matches := played_matches s \<union> c'\<rparr>
            \<and> (disjoint_configurations (possibles_configurations s) \<longrightarrow>
                 (\<forall>d\<in>set (possibles_configurations s). m \<in> d \<longrightarrow> d = c')
                 \<and> c' \<notin> set (possibles_configurations s'))"
  proof (intro allI impI)
    fix c' assume "r = Some c'"
    with r have e: "c' = c" by simp
    show "c' \<in> set (possibles_configurations s) \<and> m \<in> c'
            \<and> s' = s\<lparr>possibles_configurations := remove1 c' (possibles_configurations s),
                     played_matches := played_matches s \<union> c'\<rparr>
            \<and> (disjoint_configurations (possibles_configurations s) \<longrightarrow>
                 (\<forall>d\<in>set (possibles_configurations s). m \<in> d \<longrightarrow> d = c')
                 \<and> c' \<notin> set (possibles_configurations s'))"
      unfolding e using c s' u n by blast
  qed
  from first second third show ?thesis by (intro conjI)
qed

theorem from_match_selects_witness:
  "scenario_c2 \<in> set (possibles_configurations (scenario_state [scenario_c1, scenario_c2] scenario_c3))
   \<and> (''p_1'', ''p_2'') \<in> scenario_c2"
proof -
  have h: "generate_round_configuration_from_match
             (scenario_state [scenario_c1, scenario_c2] scenario_c3) (''p_1'', ''p_2'')
           = (Some scenario_c2, scenario_state [scenario_c1] (scenario_c3 \<union> scenario_c2))"
    by code_simp
  note t = from_match_selects[OF h, THEN conjunct2, THEN conjunct1, THEN spec, THEN mp, OF refl]
  show ?thesis using t[THEN conjunct1] t[THEN conjunct2, THEN conjunct1] by (rule conjI)
qed

subsection \<open>Rotation order and construction\<close>

lemma funpow_rearranged_cycle:
  assumes "2 \<le> length arr"
  shows "(rearranged ^^ (length arr - 1)) arr = arr"
proof -
  from assms obtain x xs where arr: "arr = x # xs" and ne: "xs \<noteq> []"
    by (rule two_le_length_Cons)
  have "rotate (length xs * (length xs - 1)) xs = xs"
    by (rule rotate_id) simp
  then show ?thesis by (simp add: arr funpow_rearranged[OF ne])
qed

lemma rearrange_list_funpow:
  assumes "2 \<le> length arr"
  shows "rearrange_list ((rearranged ^^ k) arr) = Inr ((rearranged ^^ Suc k) arr)"
proof -
  have "(rearranged ^^ k) arr \<noteq> []"
    using length_funpow_rearranged[OF assms, of k] assms by auto
  then show ?thesis by (simp add: rearrange_list_rearranged)
qed

text \<open>
  C9 (as amended). For an arrangement of at least two well-formed identifiers, at each
  step the generator first rotates the seats and then pairs the rotated seating, seat \<open>i\<close> with seat \<open>N - 1 - i\<close> for \<open>i < N / 2\<close>, each pair in canonical
  order. So the first configuration of the schedule is the pairing of the arrangement
  rotated once, and the pairing of the initial arrangement itself is the last
  configuration.
\<close>

theorem circle_rotates_then_pairs:
  assumes "2 \<le> length arr" "\<forall>p\<in>set arr. well_formed_id p"
    and "initial_configuration s = Some arr" "possibles_configurations s = []"
  shows "\<exists>sched. generate_circle_configurations s = Inr (s\<lparr>possibles_configurations := sched\<rparr>)
           \<and> length sched = length arr - 1
           \<and> (\<forall>k<length sched.
                 rearrange_list ((rearranged ^^ k) arr) = Inr ((rearranged ^^ Suc k) arr)
               \<and> generate_pairing ((rearranged ^^ Suc k) arr) = Inr (sched ! k)
               \<and> sched ! k = seat_pair ((rearranged ^^ Suc k) arr) ` {..<length arr div 2})
           \<and> generate_pairing (rearranged arr) = Inr (sched ! 0)
           \<and> generate_pairing arr = Inr (last sched)"
proof (intro exI conjI allI impI)
  have nums: "\<forall>p\<in>set ((rearranged ^^ k) arr). has_number p" for k
    using well_formed_numbers[OF assms(2)] by (simp add: set_funpow_rearranged[OF assms(1)])
  have gp: "generate_pairing ((rearranged ^^ k) arr) = Inr (seat_pairing ((rearranged ^^ k) arr))" for k
    by (rule generate_pairing_eq[OF nums])
  show "generate_circle_configurations s = Inr (s\<lparr>possibles_configurations := schedule arr\<rparr>)"
    using generate_circle_configurations_eq[OF assms(3) well_formed_numbers[OF assms(2)]] assms(4)
    by simp
  show "length (schedule arr) = length arr - 1" by (rule length_schedule)
  show "rearrange_list ((rearranged ^^ k) arr) = Inr ((rearranged ^^ Suc k) arr)" for k
    by (rule rearrange_list_funpow[OF assms(1)])
  show "generate_pairing ((rearranged ^^ Suc k) arr) = Inr (schedule arr ! k)"
    if "k < length (schedule arr)" for k
    using that gp[of "Suc k"] by (simp only: length_schedule nth_schedule)
  show "schedule arr ! k = seat_pair ((rearranged ^^ Suc k) arr) ` {..<length arr div 2}"
    if "k < length (schedule arr)" for k
    using that
    by (simp only: length_schedule nth_schedule seat_pairing_image
          length_funpow_rearranged[OF assms(1)])
  have "0 < length arr - 1" using assms(1) by simp
  then have "schedule arr ! 0 = seat_pairing ((rearranged ^^ Suc 0) arr)"
    by (rule nth_schedule)
  then show "generate_pairing (rearranged arr) = Inr (schedule arr ! 0)"
    using gp[of "Suc 0"] by simp
  have ne: "schedule arr \<noteq> []" using assms(1) length_schedule[of arr] by auto
  have "last (schedule arr) = schedule arr ! (length arr - 1 - 1)"
    using ne by (simp add: last_conv_nth length_schedule)
  also have "\<dots> = seat_pairing ((rearranged ^^ Suc (length arr - 1 - 1)) arr)"
    using assms(1) by (intro nth_schedule) simp
  also have "Suc (length arr - 1 - 1) = length arr - 1" using assms(1) by simp
  finally have "last (schedule arr) = seat_pairing arr"
    by (simp only: funpow_rearranged_cycle[OF assms(1)])
  then show "generate_pairing arr = Inr (last (schedule arr))"
    using gp[of 0] by simp
qed

theorem circle_rotates_then_pairs_witness:
  "\<exists>sched. generate_circle_configurations (scenario_state [] {})
             = Inr ((scenario_state [] {})\<lparr>possibles_configurations := sched\<rparr>)
           \<and> length sched = length scenario_players - 1
           \<and> generate_pairing (rearranged scenario_players) = Inr (sched ! 0)
           \<and> generate_pairing scenario_players = Inr (last sched)"
proof -
  have h1: "2 \<le> length scenario_players" by (simp add: scenario_players_def)
  have h2: "\<forall>p\<in>set scenario_players. well_formed_id p" by code_simp
  have h3: "initial_configuration (scenario_state [] {}) = Some scenario_players"
    by (simp add: scenario_state_def)
  have h4: "possibles_configurations (scenario_state [] {}) = []"
    by (simp add: scenario_state_def)
  from circle_rotates_then_pairs[OF h1 h2 h3 h4] obtain sched where
    "generate_circle_configurations (scenario_state [] {})
       = Inr ((scenario_state [] {})\<lparr>possibles_configurations := sched\<rparr>)"
    "length sched = length scenario_players - 1"
    "generate_pairing (rearranged scenario_players) = Inr (sched ! 0)"
    "generate_pairing scenario_players = Inr (last sched)"
    by (elim exE conjE)
  then show ?thesis by (intro exI conjI)
qed

theorem first_configuration_counterexample:
  "generate_circle_configurations (scenario_state [] {})
     = Inr (scenario_state [scenario_c1, scenario_c2, scenario_c3] {})
   \<and> generate_pairing scenario_players = Inr scenario_c3
   \<and> scenario_c1 \<noteq> scenario_c3"
  by code_simp

text \<open>
  C5 (as amended). The constructor validates nothing about the roster: for every roster,
  whatever its size and with or without duplicates, whose identifiers are all
  well-formed, construction succeeds and returns an instance that holds the roster, the
  shuffled arrangement, a schedule of \<open>N - 1\<close> configurations (none for \<open>N \<le> 1\<close>) and an
  empty played-match memory.
\<close>

theorem construction_never_rejects:
  assumes "randomize_players players shuffled" "\<forall>p\<in>set players. well_formed_id p"
  shows "\<exists>sched. new_pairing players shuffled
             = Inr \<lparr>list_of_players = players, initial_configuration = Some shuffled,
                   possibles_configurations = sched, played_matches = {}\<rparr>
           \<and> length sched = length players - 1"
proof -
  from assms(1) have m: "mset shuffled = mset players" by (simp add: randomize_players_def)
  then have "set shuffled = set players" by (rule mset_eq_setD)
  with well_formed_numbers[OF assms(2)] have nums: "\<forall>p\<in>set shuffled. has_number p" by simp
  have len: "length shuffled = length players" using m by (rule mset_eq_length)
  have "new_pairing players shuffled
      = Inr \<lparr>list_of_players = players, initial_configuration = Some shuffled,
            possibles_configurations = schedule shuffled, played_matches = {}\<rparr>"
    unfolding new_pairing_def
    by (subst generate_circle_configurations_eq[OF _ nums]) (simp_all add: init_pairing_def)
  then show ?thesis using len by (auto simp: length_schedule)
qed

theorem construction_never_rejects_witness:
  "\<exists>sched. new_pairing [''p_1'', ''p_2'', ''p_3''] [''p_3'', ''p_1'', ''p_2'']
             = Inr \<lparr>list_of_players = [''p_1'', ''p_2'', ''p_3''],
                   initial_configuration = Some [''p_3'', ''p_1'', ''p_2''],
                   possibles_configurations = sched, played_matches = {}\<rparr>
           \<and> length sched = length [''p_1'', ''p_2'', ''p_3''] - 1"
proof -
  have h1: "randomize_players [''p_1'', ''p_2'', ''p_3''] [''p_3'', ''p_1'', ''p_2'']"
    by (simp add: randomize_players_def)
  have h2: "\<forall>p\<in>set [''p_1'', ''p_2'', ''p_3'']. well_formed_id p" by code_simp
  show ?thesis by (rule construction_never_rejects[OF h1 h2])
qed

theorem malformed_roster_counterexample:
  "new_pairing [] []
     = Inr \<lparr>list_of_players = [], initial_configuration = Some [],
           possibles_configurations = [], played_matches = {}\<rparr>
   \<and> new_pairing [''p_1'', ''p_2'', ''p_3''] [''p_1'', ''p_2'', ''p_3'']
     = Inr \<lparr>list_of_players = [''p_1'', ''p_2'', ''p_3''],
           initial_configuration = Some [''p_1'', ''p_2'', ''p_3''],
           possibles_configurations = [{(''p_1'', ''p_2'')}, {(''p_1'', ''p_3'')}],
           played_matches = {}\<rparr>
   \<and> new_pairing [''p_1'', ''p_1''] [''p_1'', ''p_1'']
     = Inr \<lparr>list_of_players = [''p_1'', ''p_1''],
           initial_configuration = Some [''p_1'', ''p_1''],
           possibles_configurations = [{(''p_1'', ''p_1'')}],
           played_matches = {}\<rparr>"
  by code_simp

subsection \<open>What a successful construction returns\<close>

lemma sorted_pair_Inr:
  assumes "sorted_pair a b = Inr m"
  shows "m = canonical a b \<and> has_number a \<and> has_number b"
proof -
  from assms obtain ka where ka: "get_player_number a = Inr ka"
    by (cases "get_player_number a") (simp_all add: sorted_pair_def)
  with assms obtain kb where kb: "get_player_number b = Inr kb"
    by (cases "get_player_number b") (simp_all add: sorted_pair_def)
  have "has_number a" "has_number b" by (simp_all add: has_number_def ka kb)
  with assms show ?thesis by (simp add: sorted_pair_canonical)
qed

lemma generate_pairing_loop_Inr:
  "generate_pairing_loop l idxs acc = Inr c \<Longrightarrow> c = acc \<union> seat_pair l ` set idxs"
proof (induction idxs arbitrary: acc)
  case Nil
  then show ?case by simp
next
  case (Cons i idxs)
  from Cons.prems obtain m where m: "sorted_pair (l ! i) (l ! (length l - i - 1)) = Inr m"
    and rest: "generate_pairing_loop l idxs (insert m acc) = Inr c"
    by (cases "sorted_pair (l ! i) (l ! (length l - i - 1))") simp_all
  from sorted_pair_Inr[OF m] have "m = seat_pair l i" by (simp add: seat_pair_def)
  with Cons.IH[OF rest] show ?case by auto
qed

lemma generate_pairing_Inr: "generate_pairing l = Inr c \<Longrightarrow> c = seat_pairing l"
  using generate_pairing_loop_Inr[of l "[0..<length l div 2]" "{}" c]
  by (simp add: generate_pairing_def seat_pairing_image lessThan_atLeast0)

lemma circle_loop_Inr:
  "circle_loop n i cur confs = Inr res \<Longrightarrow> 2 \<le> length cur \<or> n \<le> i \<Longrightarrow>
   res = confs @ map (\<lambda>k. seat_pairing ((rearranged ^^ k) cur)) [1..<Suc (n - i)]"
proof (induction n i cur confs rule: circle_loop.induct)
  case (1 n i cur confs)
  show ?case
  proof (cases "i < n")
    case False
    with "1.prems"(1) show ?thesis by (simp add: circle_loop.simps)
  next
    case True
    with "1.prems"(2) have len: "2 \<le> length cur" by simp
    then have ne: "cur \<noteq> []" by auto
    have rl: "rearrange_list cur = Inr (rearranged cur)" by (rule rearrange_list_rearranged[OF ne])
    from "1.prems"(1) True rl obtain c where
      gp: "generate_pairing (rearranged cur) = Inr c"
      and rest: "circle_loop n (i + 1) (rearranged cur) (confs @ [c]) = Inr res"
      by (subst (asm) circle_loop.simps) (cases "generate_pairing (rearranged cur)", simp_all)
    have c: "c = seat_pairing (rearranged cur)" by (rule generate_pairing_Inr[OF gp])
    have len': "2 \<le> length (rearranged cur) \<or> n \<le> i + 1"
      using len by (simp add: length_rearranged)
    have IH: "res = (confs @ [c]) @
        map (\<lambda>k. seat_pairing ((rearranged ^^ k) (rearranged cur))) [1..<Suc (n - (i + 1))]"
      by (rule "1.IH"[OF True rl gp rest len'])
    have shift: "map (\<lambda>k. seat_pairing ((rearranged ^^ k) cur)) [1..<Suc (n - i)]
       = seat_pairing (rearranged cur) #
         map (\<lambda>k. seat_pairing ((rearranged ^^ k) (rearranged cur))) [1..<Suc (n - (i + 1))]"
    proof -
      have "Suc (n - (i + 1)) = n - i" using True by simp
      then have "[1..<Suc (n - i)] = 1 # map Suc [1..<Suc (n - (i + 1))]"
        using True by (simp add: upt_conv_Cons map_Suc_upt)
      then show ?thesis by (simp add: comp_def funpow_swap1)
    qed
    show ?thesis unfolding IH shift c by simp
  qed
qed

lemma generate_circle_configurations_Inr:
  assumes "generate_circle_configurations s = Inr s'" "initial_configuration s = Some arr"
  shows "s' = s\<lparr>possibles_configurations := possibles_configurations s @ schedule arr\<rparr>"
proof -
  from assms obtain res where
    cl: "circle_loop (length arr) 1 arr (possibles_configurations s) = Inr res"
    and s': "s' = s\<lparr>possibles_configurations := res\<rparr>"
    by (cases "circle_loop (length arr) 1 arr (possibles_configurations s)")
       (simp_all add: generate_circle_configurations_def)
  have "2 \<le> length arr \<or> length arr \<le> 1" by arith
  from circle_loop_Inr[OF cl this]
  have "res = possibles_configurations s @ schedule arr"
    by (cases "length arr") (simp_all add: schedule_def)
  with s' show ?thesis by simp
qed

lemma new_pairing_Inr:
  assumes "new_pairing players arr = Inr e"
  shows "e = \<lparr>list_of_players = players, initial_configuration = Some arr,
              possibles_configurations = schedule arr, played_matches = {}\<rparr>"
  using generate_circle_configurations_Inr[OF assms[unfolded new_pairing_def], of arr]
  by (simp add: init_pairing_def)

lemma instantiate_pairing_Inr:
  assumes "instantiate_pairing players arr pm = Inr e"
  shows "e = \<lparr>list_of_players = players, initial_configuration = Some arr,
              possibles_configurations = filter (\<lambda>c. c \<inter> set pm = {}) (schedule arr),
              played_matches = set pm\<rparr>"
proof -
  let ?s = "(init_pairing players)\<lparr>initial_configuration := Some arr\<rparr>"
  from assms obtain inst where g: "generate_circle_configurations ?s = Inr inst"
    by (cases "generate_circle_configurations ?s") (simp_all add: instantiate_pairing_def)
  from generate_circle_configurations_Inr[OF g, of arr]
  have inst: "inst = \<lparr>list_of_players = players, initial_configuration = Some arr,
              possibles_configurations = schedule arr, played_matches = {}\<rparr>"
    by (simp add: init_pairing_def)
  from assms show ?thesis
    by (simp add: instantiate_pairing_def g inst Let_def)
qed

lemma schedule_invariant:
  assumes "even (length arr)" "distinct arr"
  shows "disjoint_configurations (schedule arr) \<and> (\<forall>c\<in>set (schedule arr). c \<noteq> {})"
proof (cases "2 \<le> length arr")
  case True
  then show ?thesis
    using schedule_disjoint[OF assms(2) assms(1) True] schedule_nonempty[OF True] by blast
next
  case False
  then have "length arr = 0 \<or> length arr = 1" by arith
  with assms(1) have "length arr = 0" by auto
  then have "schedule arr = []" by (simp add: schedule_def)
  then show ?thesis by simp
qed

subsection \<open>What a selection call can do\<close>

lemma first_round_Nil:
  "possibles_configurations s = [] \<Longrightarrow> generate_first_round_configuration s = Inl IndexError"
  by (simp add: generate_first_round_configuration_def)

lemma first_round_Cons:
  assumes "possibles_configurations s \<noteq> []"
  shows "generate_first_round_configuration s
     = Inr (last (possibles_configurations s),
            s\<lparr>possibles_configurations := butlast (possibles_configurations s),
              played_matches := played_matches s \<union> last (possibles_configurations s)\<rparr>)"
  using assms
  by (cases "possibles_configurations s")
     (simp_all add: generate_first_round_configuration_def add_to_memory_def Let_def)

lemma from_match_result:
  assumes "generate_round_configuration_from_match s m = (r, s')"
  shows "(r = None \<and> s' = s \<and> (\<forall>c\<in>set (possibles_configurations s). m \<notin> c))
       \<or> (\<exists>c. r = Some c \<and> c \<in> set (possibles_configurations s) \<and> m \<in> c
              \<and> s' = s\<lparr>possibles_configurations := remove1 c (possibles_configurations s),
                       played_matches := played_matches s \<union> c\<rparr>)"
proof (cases "find (\<lambda>c. m \<in> c) (possibles_configurations s)")
  case None
  then have "(r, s') = (None, s)"
    using assms
    by (simp only: generate_round_configuration_from_match_def from_match_loop_find option.case)
  moreover from None have "\<forall>c\<in>set (possibles_configurations s). m \<notin> c"
    by (simp add: find_None_iff)
  ultimately show ?thesis by simp
next
  case (Some c)
  then have "(r, s') = (Some c,
      add_to_memory (s\<lparr>possibles_configurations := remove1 c (possibles_configurations s)\<rparr>) c)"
    using assms
    by (simp only: generate_round_configuration_from_match_def from_match_loop_find option.case)
  then have "r = Some c"
    "s' = s\<lparr>possibles_configurations := remove1 c (possibles_configurations s),
            played_matches := played_matches s \<union> c\<rparr>"
    by (simp_all add: add_to_memory_def)
  moreover from Some have "c \<in> set (possibles_configurations s)" "m \<in> c"
    by (auto simp: find_Some_iff)
  ultimately show ?thesis by blast
qed

lemma try_inner_Some:
  "try_inner s l i js = Some (Inr (r, s')) \<Longrightarrow>
   \<exists>m. m \<notin> played_matches s \<and> generate_round_configuration_from_match s m = (r, s')"
proof (induction js)
  case Nil
  then show ?case by simp
next
  case (Cons j js)
  show ?case
  proof (cases "sorted_pair (l ! i) (l ! j)")
    case (Inl e)
    with Cons.prems show ?thesis by simp
  next
    case (Inr m)
    show ?thesis
    proof (cases "m \<in> played_matches s")
      case True
      with Inr Cons.prems have "try_inner s l i js = Some (Inr (r, s'))" by simp
      then show ?thesis by (rule Cons.IH)
    next
      case False
      with Inr Cons.prems have "generate_round_configuration_from_match s m = (r, s')" by simp
      with False show ?thesis by blast
    qed
  qed
qed

lemma try_outer_Inr:
  "try_outer s l idxs = Inr (r, s') \<Longrightarrow>
   (r = None \<and> s' = s)
   \<or> (\<exists>m. m \<notin> played_matches s \<and> generate_round_configuration_from_match s m = (r, s'))"
proof (induction idxs)
  case Nil
  then show ?case by simp
next
  case (Cons i idxs)
  show ?case
  proof (cases "try_inner s l i [i + 1..<length l]")
    case None
    with Cons.prems have "try_outer s l idxs = Inr (r, s')" by simp
    then show ?thesis by (rule Cons.IH)
  next
    case (Some res)
    with Cons.prems have "try_inner s l i [i + 1..<length l] = Some (Inr (r, s'))" by simp
    from try_inner_Some[OF this] show ?thesis by blast
  qed
qed

lemma try_to_generate_next_round_Inr:
  "try_to_generate_next_round s l = Inr (r, s') \<Longrightarrow>
   (r = None \<and> s' = s)
   \<or> (\<exists>m. m \<notin> played_matches s \<and> generate_round_configuration_from_match s m = (r, s'))"
  unfolding try_to_generate_next_round_def by (rule try_outer_Inr)

lemma ranking_loop_not_falsy:
  "\<not> falsy result \<Longrightarrow> ranking_loop d ks acc result s = Inr (result, s)"
  by (cases ks) simp_all

lemma ranking_loop_Inr:
  "ranking_loop d ks acc result s = Inr (r, s') \<Longrightarrow>
   (s' = s \<and> (r = result \<or> r = None))
   \<or> (\<exists>m c. m \<notin> played_matches s \<and> r = Some c
          \<and> generate_round_configuration_from_match s m = (r, s'))"
proof (induction ks arbitrary: acc result)
  case Nil
  then show ?case by simp
next
  case (Cons k ks)
  show ?case
  proof (cases "falsy result")
    case False
    with Cons.prems show ?thesis by simp
  next
    case True
    with Cons.prems obtain players where mo: "map_of d k = Some players"
      by (cases "map_of d k") simp_all
    with True Cons.prems obtain r1 s1 where
      t: "try_to_generate_next_round s (acc @ players) = Inr (r1, s1)"
      and rest: "ranking_loop d ks (acc @ players) r1 s1 = Inr (r, s')"
      by (cases "try_to_generate_next_round s (acc @ players)") auto
    from try_to_generate_next_round_Inr[OF t] consider
      (none) "r1 = None" "s1 = s"
    | (sel) m where "m \<notin> played_matches s"
        "generate_round_configuration_from_match s m = (r1, s1)"
      by blast
    then show ?thesis
    proof cases
      case none
      from Cons.IH[OF rest[unfolded none]] show ?thesis by blast
    next
      case sel
      from from_match_result[OF sel(2)] consider
        (n) "r1 = None" "s1 = s"
      | (s) c where "r1 = Some c" "m \<in> c"
        by blast
      then show ?thesis
      proof cases
        case n
        from Cons.IH[OF rest[unfolded n]] show ?thesis by blast
      next
        case s
        then have "\<not> falsy r1" by (auto simp: falsy_def)
        from rest[unfolded ranking_loop_not_falsy[OF this]]
        have "r = r1" "s' = s1" by simp_all
        with sel s show ?thesis by blast
      qed
    qed
  qed
qed

lemma generate_next_round_from_ranking_Inr:
  assumes "generate_next_round_from_ranking s d = Inr (r, s')"
  shows "(r = None \<and> s' = s)
   \<or> (\<exists>m c. m \<notin> played_matches s \<and> r = Some c
          \<and> generate_round_configuration_from_match s m = (r, s'))"
proof -
  from assms obtain ks where "ranking_loop d ks [] None s = Inr (r, s')"
    by (cases "sorted_keys (map fst d)") (simp_all add: generate_next_round_from_ranking_def)
  from ranking_loop_Inr[OF this] show ?thesis by blast
qed

lemma step_cases:
  assumes "step s call = (r, s')"
  shows "(r = None \<and> s' = s)
       \<or> (\<exists>c. r = Some c \<and> c \<in> set (possibles_configurations s)
              \<and> (s' = s\<lparr>possibles_configurations := remove1 c (possibles_configurations s),
                        played_matches := played_matches s \<union> c\<rparr>
                 \<or> c = last (possibles_configurations s)
                   \<and> s' = s\<lparr>possibles_configurations := butlast (possibles_configurations s),
                          played_matches := played_matches s \<union> c\<rparr>))"
proof (cases call)
  case First_round
  show ?thesis
  proof (cases "possibles_configurations s = []")
    case True
    with assms First_round show ?thesis by (simp add: step_def first_round_Nil)
  next
    case False
    then have mem: "last (possibles_configurations s) \<in> set (possibles_configurations s)" by simp
    from assms First_round False have
      "r = Some (last (possibles_configurations s))"
      "s' = s\<lparr>possibles_configurations := butlast (possibles_configurations s),
              played_matches := played_matches s \<union> last (possibles_configurations s)\<rparr>"
      by (simp_all add: step_def first_round_Cons)
    with mem show ?thesis by blast
  qed
next
  case (From_match m)
  with assms have "generate_round_configuration_from_match s m = (r, s')"
    by (simp add: step_def)
  from from_match_result[OF this] show ?thesis by blast
next
  case (From_ranking d)
  show ?thesis
  proof (cases "generate_next_round_from_ranking s d")
    case (Inl e)
    with assms From_ranking show ?thesis by (simp add: step_def)
  next
    case (Inr res)
    obtain r1 s1 where res: "res = (r1, s1)" by (cases res)
    with Inr assms From_ranking have eq: "r1 = r" "s1 = s'" by (simp_all add: step_def)
    from generate_next_round_from_ranking_Inr[OF Inr[unfolded res eq]] consider
      (none) "r = None" "s' = s"
    | (sel) m where "generate_round_configuration_from_match s m = (r, s')"
      by blast
    then show ?thesis
    proof cases
      case none
      then show ?thesis by simp
    next
      case sel
      from from_match_result[OF sel] show ?thesis by blast
    qed
  qed
qed

subsection \<open>The invariant of the engine\<close>

lemma engine_invariant_iff:
  "engine_invariant s \<longleftrightarrow>
     disjoint_configurations (possibles_configurations s)
     \<and> (\<forall>c\<in>set (possibles_configurations s). c \<noteq> {} \<and> c \<inter> played_matches s = {})"
  by (simp add: engine_invariant_def list_all_iff)

lemma disjoint_nonempty_distinct:
  "disjoint_configurations cs \<Longrightarrow> \<forall>c\<in>set cs. c \<noteq> {} \<Longrightarrow> distinct cs"
proof (induction cs)
  case Nil
  show ?case by simp
next
  case (Cons c cs)
  have "c \<notin> set cs"
  proof
    assume mem: "c \<in> set cs"
    from Cons.prems(1) have "\<forall>d\<in>set cs. c \<inter> d = {}" by (simp add: list_all_iff)
    with mem have "c \<inter> c = {}" by blast
    with Cons.prems(2) show False by simp
  qed
  with Cons show ?case by simp
qed

lemma disjoint_configurations_filter:
  "disjoint_configurations cs \<Longrightarrow> disjoint_configurations (filter P cs)"
  by (induction cs) (simp_all add: list_all_iff)

lemma disjoint_configurations_remove1:
  "disjoint_configurations cs \<Longrightarrow> disjoint_configurations (remove1 c cs)"
proof (induction cs)
  case Nil
  show ?case by simp
next
  case (Cons a cs)
  have "set (remove1 c cs) \<subseteq> set cs" by (rule set_remove1_subset)
  with Cons show ?case by (auto simp: list_all_iff)
qed

lemma remove1_last:
  assumes "distinct cs" "cs \<noteq> []"
  shows "remove1 (last cs) cs = butlast cs"
proof -
  have cs: "butlast cs @ [last cs] = cs" by (rule append_butlast_last_id[OF assms(2)])
  from assms(1) have "distinct (butlast cs @ [last cs])" by (simp only: cs)
  then have "last cs \<notin> set (butlast cs)" by simp
  then have "remove1 (last cs) (butlast cs @ [last cs]) = butlast cs"
    by (simp add: remove1_append)
  then show ?thesis by (simp only: cs)
qed

lemma invariant_other_disjoint:
  assumes "disjoint_configurations cs" "c \<in> set cs" "c \<noteq> {}" "d \<in> set (remove1 c cs)"
  shows "d \<inter> c = {}"
proof (rule ccontr)
  assume "d \<inter> c \<noteq> {}"
  then obtain m where m: "m \<in> d" "m \<in> c" by blast
  have "d \<in> set cs" using assms(4) set_remove1_subset by fast
  from disjoint_configurations_same[OF assms(1) this assms(2) m] have "d = c" .
  with assms(4) disjoint_configurations_remove1_notin[OF assms(1) assms(2) assms(3)]
  show False by simp
qed

lemma engine_invariant_select:
  assumes "engine_invariant s" "c \<in> set (possibles_configurations s)"
  shows "engine_invariant (s\<lparr>possibles_configurations := remove1 c (possibles_configurations s),
                           played_matches := played_matches s \<union> c\<rparr>)"
proof -
  let ?cs = "possibles_configurations s"
  from assms(1) have d: "disjoint_configurations ?cs"
    and n: "\<forall>c\<in>set ?cs. c \<noteq> {} \<and> c \<inter> played_matches s = {}"
    by (simp_all add: engine_invariant_iff)
  have cne: "c \<noteq> {}" using n assms(2) by blast
  have "x \<noteq> {} \<and> x \<inter> (played_matches s \<union> c) = {}" if "x \<in> set (remove1 c ?cs)" for x
  proof -
    have "x \<in> set ?cs" using that set_remove1_subset by fast
    with n have "x \<noteq> {}" "x \<inter> played_matches s = {}" by blast+
    moreover have "x \<inter> c = {}" by (rule invariant_other_disjoint[OF d assms(2) cne that])
    ultimately show ?thesis by blast
  qed
  then show ?thesis
    by (simp add: engine_invariant_iff disjoint_configurations_remove1[OF d])
qed

lemma step_invariant:
  assumes "engine_invariant s" "step s call = (r, s')"
  shows "(r = None \<and> s' = s)
       \<or> (\<exists>c. r = Some c \<and> c \<in> set (possibles_configurations s)
              \<and> s' = s\<lparr>possibles_configurations := remove1 c (possibles_configurations s),
                        played_matches := played_matches s \<union> c\<rparr>)"
proof -
  from assms(1) have dist: "distinct (possibles_configurations s)"
    by (auto simp: engine_invariant_iff intro: disjoint_nonempty_distinct)
  from step_cases[OF assms(2)] consider
    (none) "r = None" "s' = s"
  | (rem) c where "r = Some c" "c \<in> set (possibles_configurations s)"
      "s' = s\<lparr>possibles_configurations := remove1 c (possibles_configurations s),
              played_matches := played_matches s \<union> c\<rparr>"
  | (pop) c where "r = Some c" "c \<in> set (possibles_configurations s)"
      "c = last (possibles_configurations s)"
      "s' = s\<lparr>possibles_configurations := butlast (possibles_configurations s),
              played_matches := played_matches s \<union> c\<rparr>"
    by blast
  then show ?thesis
  proof cases
    case none
    then show ?thesis by simp
  next
    case rem
    then show ?thesis by blast
  next
    case pop
    from pop(2) have "possibles_configurations s \<noteq> []" by auto
    from remove1_last[OF dist this] pop(3)
    have "butlast (possibles_configurations s) = remove1 c (possibles_configurations s)" by simp
    with pop show ?thesis by simp
  qed
qed

lemma run_invariant:
  "engine_invariant s \<Longrightarrow> run s calls = (rs, s') \<Longrightarrow>
   engine_invariant s' \<and> disjoint_configurations rs
   \<and> set rs \<subseteq> set (possibles_configurations s)
   \<and> set (possibles_configurations s') \<subseteq> set (possibles_configurations s)
   \<and> played_matches s \<subseteq> played_matches s'
   \<and> (\<forall>c\<in>set rs. c \<subseteq> played_matches s')"
proof (induction calls arbitrary: s rs)
  case Nil
  then show ?case by simp
next
  case (Cons call calls)
  obtain r s1 where st: "step s call = (r, s1)" by (cases "step s call")
  obtain rs1 s2 where rn: "run s1 calls = (rs1, s2)" by (cases "run s1 calls")
  from Cons.prems(2) st rn have s2: "s2 = s'"
    and rs: "rs = (case r of None \<Rightarrow> rs1 | Some conf \<Rightarrow> conf # rs1)"
    by simp_all
  from step_invariant[OF Cons.prems(1) st] consider
    (none) "r = None" "s1 = s"
  | (sel) c where "r = Some c" "c \<in> set (possibles_configurations s)"
      "s1 = s\<lparr>possibles_configurations := remove1 c (possibles_configurations s),
              played_matches := played_matches s \<union> c\<rparr>"
    by blast
  then show ?case
  proof cases
    case none
    from Cons.IH[OF Cons.prems(1) rn[unfolded none(2) s2]] show ?thesis
      by (simp add: rs none)
  next
    case sel
    have inv1: "engine_invariant s1"
      unfolding sel(3) by (rule engine_invariant_select[OF Cons.prems(1) sel(2)])
    note IH = Cons.IH[OF inv1 rn[unfolded s2]]
    have p1: "possibles_configurations s1 = remove1 c (possibles_configurations s)"
      and m1: "played_matches s1 = played_matches s \<union> c"
      by (simp_all add: sel(3))
    have sub1: "set (possibles_configurations s1) \<subseteq> set (possibles_configurations s)"
      unfolding p1 by (rule set_remove1_subset)
    have "c \<inter> d = {}" if "d \<in> set rs1" for d
    proof -
      from that IH have "d \<in> set (possibles_configurations s1)" by blast
      with inv1 have "d \<inter> played_matches s1 = {}" by (simp add: engine_invariant_iff)
      then show ?thesis unfolding m1 by blast
    qed
    then have dis: "disjoint_configurations (c # rs1)"
      using IH by (simp add: list_all_iff)
    have cp: "c \<subseteq> played_matches s'" using IH m1 by blast
    have rs': "rs = c # rs1" by (simp add: rs sel(1))
    have a: "engine_invariant s'" using IH by blast
    have b: "set (c # rs1) \<subseteq> set (possibles_configurations s)"
      using IH sub1 sel(2) by auto
    have c': "set (possibles_configurations s') \<subseteq> set (possibles_configurations s)"
      using IH sub1 by blast
    have d: "played_matches s \<subseteq> played_matches s'" using IH m1 by blast
    have e: "\<forall>x\<in>set (c # rs1). x \<subseteq> played_matches s'" using IH cp by simp
    show ?thesis unfolding rs' using a dis b c' d e by (intro conjI)
  qed
qed

lemma run_length:
  "run s calls = (rs, s') \<Longrightarrow>
   length (possibles_configurations s') + length rs = length (possibles_configurations s)"
proof (induction calls arbitrary: s rs)
  case Nil
  then show ?case by simp
next
  case (Cons call calls)
  obtain r s1 where st: "step s call = (r, s1)" by (cases "step s call")
  obtain rs1 s2 where rn: "run s1 calls = (rs1, s2)" by (cases "run s1 calls")
  from Cons.prems st rn have s2: "s2 = s'"
    and rs: "rs = (case r of None \<Rightarrow> rs1 | Some conf \<Rightarrow> conf # rs1)"
    by simp_all
  note IH = Cons.IH[OF rn[unfolded s2]]
  from step_cases[OF st] consider
    (none) "r = None" "s1 = s"
  | (rem) c where "r = Some c" "c \<in> set (possibles_configurations s)"
      "s1 = s\<lparr>possibles_configurations := remove1 c (possibles_configurations s),
              played_matches := played_matches s \<union> c\<rparr>"
  | (pop) c where "r = Some c" "c \<in> set (possibles_configurations s)"
      "s1 = s\<lparr>possibles_configurations := butlast (possibles_configurations s),
              played_matches := played_matches s \<union> c\<rparr>"
    by blast
  then show ?case
  proof cases
    case none
    with IH show ?thesis by (simp add: rs)
  next
    case rem
    from rem(2) have pos: "0 < length (possibles_configurations s)"
      by (rule length_pos_if_in_set)
    have "possibles_configurations s1 = remove1 c (possibles_configurations s)"
      by (simp add: rem(3))
    then have "Suc (length (possibles_configurations s1)) = length (possibles_configurations s)"
      using rem(2) pos by (simp add: length_remove1)
    with IH show ?thesis by (simp add: rs rem(1))
  next
    case pop
    from pop(2) have pos: "0 < length (possibles_configurations s)"
      by (rule length_pos_if_in_set)
    have "possibles_configurations s1 = butlast (possibles_configurations s)"
      by (simp add: pop(3))
    then have "Suc (length (possibles_configurations s1)) = length (possibles_configurations s)"
      using pos by simp
    with IH show ?thesis by (simp add: rs pop(1))
  qed
qed

subsection \<open>No repeated match, and reconstruction\<close>

lemma new_pairing_invariant:
  assumes "even (length arr)" "distinct arr" "new_pairing players arr = Inr e"
  shows "engine_invariant e"
proof -
  note e = new_pairing_Inr[OF assms(3)]
  from schedule_invariant[OF assms(1,2)] show ?thesis
    by (simp add: e engine_invariant_iff)
qed

lemma instantiate_pairing_invariant:
  assumes "even (length arr)" "distinct arr" "instantiate_pairing players arr pm = Inr e"
  shows "engine_invariant e"
proof -
  note e = instantiate_pairing_Inr[OF assms(3)]
  from schedule_invariant[OF assms(1,2)] show ?thesis
    by (simp add: e engine_invariant_iff disjoint_configurations_filter)
qed

text \<open>
  C2. For an engine built, freshly or by reconstruction, from an even-sized arrangement of
  distinct players, and for every finite sequence of selection calls on it: the
  configurations returned are pairwise disjoint, so no match is returned twice; each
  returned configuration is recorded in the played-match memory and shares no match with
  the memory the engine started with; and the state reached keeps its remaining
  configurations non-empty, pairwise disjoint and disjoint from the played-match memory.
\<close>

theorem no_match_repeated:
  assumes "even (length arr)" "distinct arr"
    and "new_pairing players arr = Inr e \<or> instantiate_pairing players arr pm = Inr e"
    and "run e calls = (returned, e')"
  shows "disjoint_configurations returned \<and> engine_invariant e'
       \<and> (\<forall>c\<in>set returned. c \<subseteq> played_matches e' \<and> c \<inter> played_matches e = {})"
proof -
  from assms(3) have inv: "engine_invariant e"
    using new_pairing_invariant[OF assms(1,2)] instantiate_pairing_invariant[OF assms(1,2)]
    by blast
  note r = run_invariant[OF inv assms(4)]
  have "c \<inter> played_matches e = {}" if "c \<in> set returned" for c
  proof -
    from that r have "c \<in> set (possibles_configurations e)" by blast
    with inv show ?thesis by (simp add: engine_invariant_iff)
  qed
  with r show ?thesis by blast
qed

theorem no_match_repeated_witness:
  "disjoint_configurations [scenario_c3, scenario_c2, scenario_c1]
   \<and> engine_invariant (scenario_state [] (scenario_c3 \<union> scenario_c2 \<union> scenario_c1))"
proof -
  have h1: "even (length scenario_players)" by (simp add: scenario_players_def)
  have h2: "distinct scenario_players" by (simp add: scenario_players_def)
  have h3: "new_pairing scenario_players scenario_players
              = Inr (scenario_state [scenario_c1, scenario_c2, scenario_c3] {})
            \<or> instantiate_pairing scenario_players scenario_players []
              = Inr (scenario_state [scenario_c1, scenario_c2, scenario_c3] {})"
    by code_simp
  have h4: "run (scenario_state [scenario_c1, scenario_c2, scenario_c3] {})
              [First_round, From_ranking scenario_ranking, First_round]
            = ([scenario_c3, scenario_c2, scenario_c1],
               scenario_state [] (scenario_c3 \<union> scenario_c2 \<union> scenario_c1))"
    by code_simp
  note t = no_match_repeated[OF h1 h2 h3 h4]
  show ?thesis using t[THEN conjunct1] t[THEN conjunct2, THEN conjunct1] by (rule conjI)
qed

lemma filter_disjoint_remove1:
  assumes "disjoint_configurations cs" "\<forall>c\<in>set cs. c \<noteq> {}" "c \<in> set cs"
  shows "filter (\<lambda>d. d \<inter> c = {}) cs = remove1 c cs"
proof -
  have dist: "distinct cs" by (rule disjoint_nonempty_distinct[OF assms(1,2)])
  have "(d \<inter> c = {}) = (c \<noteq> d)" if "d \<in> set cs" for d
  proof
    assume "d \<inter> c = {}"
    with assms(2) that show "c \<noteq> d" by blast
  next
    assume ne: "c \<noteq> d"
    show "d \<inter> c = {}"
    proof (rule ccontr)
      assume "d \<inter> c \<noteq> {}"
      then obtain m where "m \<in> d" "m \<in> c" by blast
      from disjoint_configurations_same[OF assms(1) that assms(3) this] ne show False by simp
    qed
  qed
  then have "filter (\<lambda>d. d \<inter> c = {}) cs = filter (\<lambda>d. c \<noteq> d) cs"
    by (intro filter_cong) simp_all
  also have "\<dots> = removeAll c cs" by (simp add: removeAll_filter_not_eq)
  also have "\<dots> = remove1 c cs" by (simp add: distinct_remove1_removeAll[OF dist])
  finally show ?thesis .
qed

lemma run_reconstruct:
  "engine_invariant s \<Longrightarrow>
   possibles_configurations s = filter (\<lambda>c. c \<inter> played_matches s = {}) sched \<Longrightarrow>
   run s calls = (rs, s') \<Longrightarrow>
   possibles_configurations s' = filter (\<lambda>c. c \<inter> played_matches s' = {}) sched
   \<and> list_of_players s' = list_of_players s
   \<and> initial_configuration s' = initial_configuration s"
proof (induction calls arbitrary: s rs)
  case Nil
  then show ?case by simp
next
  case (Cons call calls)
  obtain r s1 where st: "step s call = (r, s1)" by (cases "step s call")
  obtain rs1 s2 where rn: "run s1 calls = (rs1, s2)" by (cases "run s1 calls")
  from Cons.prems(3) st rn have s2: "s2 = s'" by simp
  from step_invariant[OF Cons.prems(1) st] consider
    (none) "r = None" "s1 = s"
  | (sel) c where "r = Some c" "c \<in> set (possibles_configurations s)"
      "s1 = s\<lparr>possibles_configurations := remove1 c (possibles_configurations s),
              played_matches := played_matches s \<union> c\<rparr>"
    by blast
  then show ?case
  proof cases
    case none
    from Cons.IH[OF Cons.prems(1) Cons.prems(2) rn[unfolded none(2) s2]] show ?thesis .
  next
    case sel
    have inv1: "engine_invariant s1"
      unfolding sel(3) by (rule engine_invariant_select[OF Cons.prems(1) sel(2)])
    from Cons.prems(1) have d: "disjoint_configurations (possibles_configurations s)"
      and n: "\<forall>c\<in>set (possibles_configurations s). c \<noteq> {}"
      by (simp_all add: engine_invariant_iff)
    have "possibles_configurations s1 = remove1 c (possibles_configurations s)"
      by (simp add: sel(3))
    also have "\<dots> = filter (\<lambda>d. d \<inter> c = {}) (possibles_configurations s)"
      by (rule filter_disjoint_remove1[OF d n sel(2), symmetric])
    also have "\<dots> = filter (\<lambda>d. d \<inter> c = {}) (filter (\<lambda>c. c \<inter> played_matches s = {}) sched)"
      by (simp only: Cons.prems(2)[symmetric])
    also have "\<dots> = filter (\<lambda>d. d \<inter> (played_matches s \<union> c) = {}) sched"
      by (simp add: Int_Un_distrib conj_commute)
    finally have p1: "possibles_configurations s1
        = filter (\<lambda>d. d \<inter> played_matches s1 = {}) sched"
      by (simp add: sel(3))
    have f1: "list_of_players s1 = list_of_players s"
      "initial_configuration s1 = initial_configuration s"
      by (simp_all add: sel(3))
    from Cons.IH[OF inv1 p1 rn[unfolded s2]] f1 show ?thesis by simp
  qed
qed

lemma instantiate_from_new:
  assumes "new_pairing players arr = Inr e0"
  shows "instantiate_pairing players arr pm
     = Inr \<lparr>list_of_players = players, initial_configuration = Some arr,
           possibles_configurations = filter (\<lambda>c. c \<inter> set pm = {}) (schedule arr),
           played_matches = set pm\<rparr>"
proof -
  note e0 = new_pairing_Inr[OF assms]
  from assms have "generate_circle_configurations
      ((init_pairing players)\<lparr>initial_configuration := Some arr\<rparr>) = Inr e0"
    by (simp add: new_pairing_def)
  then show ?thesis
    by (simp add: instantiate_pairing_def e0 Let_def)
qed

text \<open>
  C3. Let an engine be built from an even-sized arrangement of distinct players. If the
  played matches handed to \<open>instantiate_pairing\<close> are the union of a set \<open>S\<close> of
  configurations of its schedule, the reconstructed engine holds exactly the
  configurations of the regenerated schedule that are not in \<open>S\<close>, in schedule order, and
  \<open>S\<close>'s matches as memory. In particular, after any sequence of selection calls on the
  original engine, reconstructing from the arrangement and the played-match memory gives
  back the state the original engine is in, so both offer the same configurations.
\<close>

theorem reconstruction_exact:
  assumes "even (length arr)" "distinct arr" "new_pairing players arr = Inr e0"
  shows "(\<forall>S pm. S \<subseteq> set (possibles_configurations e0) \<and> set pm = \<Union>S \<longrightarrow>
            instantiate_pairing players arr pm
              = Inr (e0\<lparr>possibles_configurations :=
                          filter (\<lambda>c. c \<notin> S) (possibles_configurations e0),
                        played_matches := \<Union>S\<rparr>))
       \<and> (\<forall>calls returned e pm. run e0 calls = (returned, e) \<and> set pm = played_matches e \<longrightarrow>
            instantiate_pairing players arr pm = Inr e)"
proof (intro conjI allI impI)
  note e0 = new_pairing_Inr[OF assms(3)]
  note si = schedule_invariant[OF assms(1,2)]
  fix S :: "configuration set" and pm :: "match list"
  assume a: "S \<subseteq> set (possibles_configurations e0) \<and> set pm = \<Union>S"
  then have S: "S \<subseteq> set (schedule arr)" and pm: "set pm = \<Union>S" by (simp_all add: e0)
  have "(c \<inter> \<Union>S = {}) = (c \<notin> S)" if c: "c \<in> set (schedule arr)" for c
  proof
    assume "c \<inter> \<Union>S = {}"
    moreover have "c \<noteq> {}" using si c by blast
    ultimately show "c \<notin> S" by blast
  next
    assume n: "c \<notin> S"
    show "c \<inter> \<Union>S = {}"
    proof (rule ccontr)
      assume "c \<inter> \<Union>S \<noteq> {}"
      then obtain m d where "m \<in> c" "d \<in> S" "m \<in> d" by blast
      with S have "d \<in> set (schedule arr)" by blast
      from disjoint_configurations_same[OF si[THEN conjunct1] c this \<open>m \<in> c\<close> \<open>m \<in> d\<close>]
      have "c = d" .
      with n \<open>d \<in> S\<close> show False by simp
    qed
  qed
  then have "filter (\<lambda>c. c \<inter> \<Union>S = {}) (schedule arr) = filter (\<lambda>c. c \<notin> S) (schedule arr)"
    by (intro filter_cong) simp_all
  then show "instantiate_pairing players arr pm
      = Inr (e0\<lparr>possibles_configurations := filter (\<lambda>c. c \<notin> S) (possibles_configurations e0),
                played_matches := \<Union>S\<rparr>)"
    by (simp add: instantiate_from_new[OF assms(3)] pm e0)
next
  note e0 = new_pairing_Inr[OF assms(3)]
  fix calls returned e and pm :: "match list"
  assume a: "run e0 calls = (returned, e) \<and> set pm = played_matches e"
  then have rn: "run e0 calls = (returned, e)" and pm: "set pm = played_matches e" by simp_all
  have inv: "engine_invariant e0" by (rule new_pairing_invariant[OF assms])
  have p0: "possibles_configurations e0
      = filter (\<lambda>c. c \<inter> played_matches e0 = {}) (schedule arr)"
    by (simp add: e0)
  from run_reconstruct[OF inv p0 rn]
  have "possibles_configurations e = filter (\<lambda>c. c \<inter> played_matches e = {}) (schedule arr)"
    "list_of_players e = players" "initial_configuration e = Some arr"
    by (simp_all add: e0)
  then have "e = \<lparr>list_of_players = players, initial_configuration = Some arr,
           possibles_configurations = filter (\<lambda>c. c \<inter> set pm = {}) (schedule arr),
           played_matches = set pm\<rparr>"
    by (intro pairing.equality) (simp_all add: pm)
  then show "instantiate_pairing players arr pm = Inr e"
    by (simp only: instantiate_from_new[OF assms(3)])
qed

theorem reconstruction_exact_witness:
  "instantiate_pairing scenario_players scenario_players [(''p_1'', ''p_4''), (''p_2'', ''p_3'')]
     = Inr (scenario_state [scenario_c1, scenario_c2] scenario_c3)"
proof -
  have h1: "even (length scenario_players)" by (simp add: scenario_players_def)
  have h2: "distinct scenario_players" by (simp add: scenario_players_def)
  have h3: "new_pairing scenario_players scenario_players
              = Inr (scenario_state [scenario_c1, scenario_c2, scenario_c3] {})"
    by code_simp
  have h4: "run (scenario_state [scenario_c1, scenario_c2, scenario_c3] {}) [First_round]
            = ([scenario_c3], scenario_state [scenario_c1, scenario_c2] scenario_c3)"
    by code_simp
  have h5: "set [(''p_1'', ''p_4''), (''p_2'', ''p_3'')]
            = played_matches (scenario_state [scenario_c1, scenario_c2] scenario_c3)"
    by (simp add: scenario_state_def scenario_c3_def)
  note t = reconstruction_exact[OF h1 h2 h3, THEN conjunct2, rule_format, OF conjI, OF h4 h5]
  show ?thesis by (rule t)
qed

subsection \<open>Ranking-weighted selection\<close>

lemma find_append_cases:
  "find P (xs @ ys) = (case find P xs of None \<Rightarrow> find P ys | Some x \<Rightarrow> Some x)"
  by (induction xs) simp_all

lemma try_inner_find:
  assumes "has_number (l ! i)" "\<forall>j\<in>set js. has_number (l ! j)"
  shows "try_inner s l i js =
     (case find (\<lambda>m. m \<notin> played_matches s) (map (\<lambda>j. canonical (l ! i) (l ! j)) js) of
        None \<Rightarrow> None
      | Some m \<Rightarrow> Some (Inr (generate_round_configuration_from_match s m)))"
  using assms(2)
proof (induction js)
  case Nil
  show ?case by simp
next
  case (Cons j js)
  then have "sorted_pair (l ! i) (l ! j) = Inr (canonical (l ! i) (l ! j))"
    using assms(1) by (simp add: sorted_pair_canonical)
  with Cons show ?case by simp
qed

lemma try_outer_find:
  assumes "\<forall>p\<in>set l. has_number p" "\<forall>i\<in>set idxs. i < length l"
  shows "try_outer s l idxs =
     Inr (case find (\<lambda>m. m \<notin> played_matches s)
                 (concat (map (\<lambda>i. map (\<lambda>j. canonical (l ! i) (l ! j)) [i + 1..<length l]) idxs)) of
            None \<Rightarrow> (None, s)
          | Some m \<Rightarrow> generate_round_configuration_from_match s m)"
  using assms(2)
proof (induction idxs)
  case Nil
  show ?case by simp
next
  case (Cons i idxs)
  have hi: "has_number (l ! i)" using Cons.prems assms(1) by simp
  have hj: "\<forall>j\<in>set [i + 1..<length l]. has_number (l ! j)" using assms(1) by simp
  have IH: "try_outer s l idxs =
     Inr (case find (\<lambda>m. m \<notin> played_matches s)
                 (concat (map (\<lambda>i. map (\<lambda>j. canonical (l ! i) (l ! j)) [i + 1..<length l]) idxs)) of
            None \<Rightarrow> (None, s)
          | Some m \<Rightarrow> generate_round_configuration_from_match s m)"
    using Cons by simp
  have ti: "try_inner s l i [i + 1..<length l] =
     (case find (\<lambda>m. m \<notin> played_matches s)
             (map (\<lambda>j. canonical (l ! i) (l ! j)) [i + 1..<length l]) of
        None \<Rightarrow> None
      | Some m \<Rightarrow> Some (Inr (generate_round_configuration_from_match s m)))"
    by (rule try_inner_find[OF hi hj])
  show ?case
    unfolding try_outer.simps ti IH list.map concat.simps find_append_cases
    by (simp split: option.splits)
qed

lemma ordered_pairs_index:
  "ordered_pairs l = concat (map (\<lambda>i. map (\<lambda>j. (l ! i, l ! j)) [i + 1..<length l]) [0..<length l])"
proof (induction l)
  case Nil
  show ?case by simp
next
  case (Cons x xs)
  have first: "map (\<lambda>j. ((x # xs) ! 0, (x # xs) ! j)) [0 + 1..<length (x # xs)] = map (Pair x) xs"
  proof -
    have "[0 + 1..<length (x # xs)] = map Suc [0..<length xs]" by (simp add: map_Suc_upt)
    then have "map (\<lambda>j. ((x # xs) ! 0, (x # xs) ! j)) [0 + 1..<length (x # xs)]
        = map (\<lambda>j. (x, xs ! j)) [0..<length xs]"
      by (simp only: list.map_comp) (simp add: comp_def)
    also have "\<dots> = map (Pair x) (map (\<lambda>j. xs ! j) [0..<length xs])" by (simp add: comp_def)
    also have "\<dots> = map (Pair x) xs" by (simp only: map_nth)
    finally show ?thesis .
  qed
  have rest: "map (\<lambda>i. map (\<lambda>j. ((x # xs) ! i, (x # xs) ! j)) [i + 1..<length (x # xs)])
                (map Suc [0..<length xs])
            = map (\<lambda>i. map (\<lambda>j. (xs ! i, xs ! j)) [i + 1..<length xs]) [0..<length xs]"
  proof -
    have "map (\<lambda>j. ((x # xs) ! Suc i, (x # xs) ! j)) [Suc i + 1..<length (x # xs)]
        = map (\<lambda>j. (xs ! i, xs ! j)) [i + 1..<length xs]" for i
    proof -
      have "[Suc i + 1..<length (x # xs)] = map Suc [i + 1..<length xs]"
        by (simp add: map_Suc_upt)
      then show ?thesis by (simp only: list.map_comp) (simp add: comp_def)
    qed
    then show ?thesis by (simp add: comp_def)
  qed
  have "[0..<length (x # xs)] = 0 # map Suc [0..<length xs]"
    by (simp add: upt_conv_Cons map_Suc_upt del: upt_Suc)
  then have "concat (map (\<lambda>i. map (\<lambda>j. ((x # xs) ! i, (x # xs) ! j)) [i + 1..<length (x # xs)])
                  [0..<length (x # xs)])
      = map (\<lambda>j. ((x # xs) ! 0, (x # xs) ! j)) [0 + 1..<length (x # xs)]
        @ concat (map (\<lambda>i. map (\<lambda>j. ((x # xs) ! i, (x # xs) ! j)) [i + 1..<length (x # xs)])
                  (map Suc [0..<length xs]))"
    by (simp only: list.map concat.simps)
  also have "\<dots> = map (Pair x) xs @ ordered_pairs xs"
    by (simp only: first rest Cons.IH)
  finally show ?case by simp
qed

lemma scan_pairs_index:
  "scan_pairs l
   = concat (map (\<lambda>i. map (\<lambda>j. canonical (l ! i) (l ! j)) [i + 1..<length l]) [0..<length l])"
  by (simp add: scan_pairs_def ordered_pairs_index map_concat comp_def)

lemma try_to_generate_next_round_scan:
  assumes "\<forall>p\<in>set l. has_number p"
  shows "try_to_generate_next_round s l = Inr (spec_pairwise_scan s l)"
proof -
  have "\<forall>i\<in>set [0..<length l]. i < length l" by simp
  from try_outer_find[OF assms this] show ?thesis
    by (simp only: try_to_generate_next_round_def spec_pairwise_scan_def scan_pairs_index
          from_match_spec)
qed

lemma keys_int_numeric:
  "list_all numeric_key ks \<Longrightarrow> keys_int ks = Inr (map (\<lambda>k. (rank_of k, k)) ks)"
proof (induction ks)
  case Nil
  show ?case by simp
next
  case (Cons k ks)
  from Cons.prems have "numeric_key k" by simp
  then have "py_int k = Inr (rank_of k)"
    by (cases "py_int k") (simp_all add: numeric_key_def rank_of_def)
  with Cons show ?case by simp
qed

lemma insort_key_tagged:
  "\<forall>x\<in>set xs. fst x = f (snd x) \<Longrightarrow>
   map snd (insort_key fst (f k, k) xs) = insort_key f k (map snd xs)"
  by (induction xs) simp_all

lemma sort_key_tagged:
  "map snd (sort_key fst (map (\<lambda>k. (f k, k)) ks)) = sort_key f ks"
proof (induction ks)
  case Nil
  show ?case by simp
next
  case (Cons k ks)
  have "\<forall>x\<in>set (sort_key fst (map (\<lambda>k. (f k, k)) ks)). fst x = f (snd x)" by auto
  from insort_key_tagged[OF this, of k] Cons.IH show ?case by simp
qed

lemma sorted_keys_numeric:
  "list_all numeric_key ks \<Longrightarrow> sorted_keys ks = Inr (sort_key rank_of ks)"
  by (simp add: sorted_keys_def keys_int_numeric sort_key_tagged)

lemma well_formed_lookup:
  assumes "ranking_well_formed d" "k \<in> set (map fst d)"
  shows "\<exists>players. map_of d k = Some players \<and> (\<forall>p\<in>set players. has_number p)"
proof -
  from assms(2) have "map_of d k \<noteq> None" by (simp add: map_of_eq_None_iff)
  then obtain players where m: "map_of d k = Some players" by blast
  then have "(k, players) \<in> set d" by (rule map_of_SomeD)
  with assms(1) have "list_all well_formed_id players"
    by (auto simp: ranking_well_formed_def list_all_iff)
  with m show ?thesis by (simp add: list_all_iff well_formed_id_def)
qed

lemma well_formed_keys: "ranking_well_formed d \<Longrightarrow> list_all numeric_key (map fst d)"
  by (auto simp: ranking_well_formed_def list_all_iff)

lemma spec_pairwise_scan_cases:
  assumes "spec_pairwise_scan s pool = (r, s')"
  shows "(r = None \<and> s' = s)
       \<or> (\<exists>m c. find (\<lambda>m. m \<notin> played_matches s) (scan_pairs pool) = Some m
              \<and> r = Some c \<and> c \<in> set (possibles_configurations s) \<and> m \<in> c
              \<and> s' = s\<lparr>possibles_configurations := remove1 c (possibles_configurations s),
                       played_matches := played_matches s \<union> c\<rparr>)"
proof (cases "find (\<lambda>m. m \<notin> played_matches s) (scan_pairs pool)")
  case None
  with assms show ?thesis by (simp add: spec_pairwise_scan_def)
next
  case (Some m)
  with assms have "generate_round_configuration_from_match s m = (r, s')"
    by (simp add: spec_pairwise_scan_def from_match_spec)
  from from_match_result[OF this] Some show ?thesis by blast
qed

lemma ranking_loop_refine:
  assumes "\<forall>k\<in>set ks. \<exists>players. map_of d k = Some players \<and> (\<forall>p\<in>set players. has_number p)"
    and "\<forall>p\<in>set acc. has_number p"
  shows "ranking_loop d ks acc None s =
     Inr (case find (\<lambda>pool. fst (spec_pairwise_scan s pool) \<noteq> None)
                 (accumulate acc (map (players_of d) ks)) of
            None \<Rightarrow> (None, s)
          | Some pool \<Rightarrow> spec_pairwise_scan s pool)"
  using assms
proof (induction ks arbitrary: acc)
  case Nil
  show ?case by simp
next
  case (Cons k ks)
  from Cons.prems(1) obtain players where mo: "map_of d k = Some players"
    and nums: "\<forall>p\<in>set players. has_number p" by auto
  have po: "players_of d k = players" by (simp add: players_of_def mo)
  have acc': "\<forall>p\<in>set (acc @ players). has_number p" using Cons.prems(2) nums by auto
  have tr: "try_to_generate_next_round s (acc @ players) = Inr (spec_pairwise_scan s (acc @ players))"
    by (rule try_to_generate_next_round_scan[OF acc'])
  obtain r1 s1 where sc: "spec_pairwise_scan s (acc @ players) = (r1, s1)"
    by (cases "spec_pairwise_scan s (acc @ players)")
  have ks: "\<forall>k\<in>set ks. \<exists>players. map_of d k = Some players \<and> (\<forall>p\<in>set players. has_number p)"
    using Cons.prems(1) by simp
  have unfold: "ranking_loop d (k # ks) acc None s = ranking_loop d ks (acc @ players) r1 s1"
    by (simp add: falsy_def mo tr sc)
  from spec_pairwise_scan_cases[OF sc] consider
    (none) "r1 = None" "s1 = s"
  | (sel) m c where "r1 = Some c" "m \<in> c"
    by blast
  then show ?case
  proof cases
    case none
    show ?thesis
      unfolding unfold none
      by (simp add: Cons.IH[OF ks acc'] po sc none)
  next
    case sel
    then have "\<not> falsy r1" by (auto simp: falsy_def)
    from ranking_loop_not_falsy[OF this]
    have "ranking_loop d ks (acc @ players) r1 s1 = Inr (r1, s1)" .
    then show ?thesis
      unfolding unfold by (simp add: po sc sel(1))
  qed
qed

lemma accumulate_prefix:
  "pool \<in> set (accumulate acc gs) \<Longrightarrow> \<exists>rest. acc @ concat gs = pool @ rest"
proof (induction gs arbitrary: acc)
  case Nil
  then show ?case by simp
next
  case (Cons g gs)
  from Cons.prems consider "pool = acc @ g" | "pool \<in> set (accumulate (acc @ g) gs)" by auto
  then show ?case
  proof cases
    case 1
    then show ?thesis by simp
  next
    case 2
    from Cons.IH[OF this] show ?thesis by simp
  qed
qed

lemma ordered_pairs_append_subset: "set (ordered_pairs xs) \<subseteq> set (ordered_pairs (xs @ ys))"
  by (induction xs) auto

lemma scan_pairs_append_subset: "set (scan_pairs xs) \<subseteq> set (scan_pairs (xs @ ys))"
  using ordered_pairs_append_subset[of xs ys] by (auto simp: scan_pairs_def)

lemma run_played:
  "engine_invariant s \<Longrightarrow> run s calls = (rs, s') \<Longrightarrow>
   played_matches s' = played_matches s \<union> \<Union>(set rs)"
proof (induction calls arbitrary: s rs)
  case Nil
  then show ?case by simp
next
  case (Cons call calls)
  obtain r s1 where st: "step s call = (r, s1)" by (cases "step s call")
  obtain rs1 s2 where rn: "run s1 calls = (rs1, s2)" by (cases "run s1 calls")
  from Cons.prems(2) st rn have s2: "s2 = s'"
    and rs: "rs = (case r of None \<Rightarrow> rs1 | Some conf \<Rightarrow> conf # rs1)"
    by simp_all
  from step_invariant[OF Cons.prems(1) st] consider
    (none) "r = None" "s1 = s"
  | (sel) c where "r = Some c" "c \<in> set (possibles_configurations s)"
      "s1 = s\<lparr>possibles_configurations := remove1 c (possibles_configurations s),
              played_matches := played_matches s \<union> c\<rparr>"
    by blast
  then show ?case
  proof cases
    case none
    from Cons.IH[OF Cons.prems(1) rn[unfolded none(2) s2]] show ?thesis
      by (simp add: rs none)
  next
    case sel
    have inv1: "engine_invariant s1"
      unfolding sel(3) by (rule engine_invariant_select[OF Cons.prems(1) sel(2)])
    have m1: "played_matches s1 = played_matches s \<union> c" by (simp add: sel(3))
    from Cons.IH[OF inv1 rn[unfolded s2]] have "played_matches s' = played_matches s1 \<union> \<Union>(set rs1)" .
    then show ?thesis unfolding m1 rs sel(1) by auto
  qed
qed

lemma canonical_of_unordered:
  assumes "unordered m = {a, b}" "a \<noteq> b" "player_number a \<noteq> player_number b"
    and "player_number (fst m) \<le> player_number (snd m)"
  shows "m = canonical a b"
proof -
  from assms(1,2) have "m = (a, b) \<or> m = (b, a)"
    by (cases m) (auto simp: unordered_def doubleton_eq_iff)
  with assms(3,4) show ?thesis by (auto simp: canonical_def)
qed

lemma schedule_has_pair:
  assumes "even (length arr)" "distinct arr" "inj_on player_number (set arr)"
    and "a \<in> set arr" "b \<in> set arr" "a \<noteq> b"
  shows "\<exists>c\<in>set (schedule arr). canonical a b \<in> c"
proof -
  have "card {a, b} \<le> card (set arr)" using assms(4,5) by (intro card_mono) simp_all
  also have "card (set arr) \<le> length arr" by (rule card_length)
  finally have len: "2 \<le> length arr" using assms(6) by simp
  have "{a, b} \<in> {B. B \<subseteq> set arr \<and> card B = 2}" using assms(4-6) by simp
  then have "{a, b} \<in> unordered ` \<Union>(set (schedule arr))"
    by (simp only: schedule_covers[OF assms(2) assms(1) len])
  then obtain c m where c: "c \<in> set (schedule arr)" and m: "m \<in> c" and u: "unordered m = {a, b}"
    by auto
  from schedule_perfect[OF assms(2) assms(1) len c] m
  have ord: "player_number (fst m) \<le> player_number (snd m)"
    by (auto simp: perfect_matching_def)
  have "player_number a \<noteq> player_number b"
    using assms(3-6) by (auto dest: inj_onD)
  from canonical_of_unordered[OF u assms(6) this ord] m c show ?thesis by blast
qed

lemma unplayed_pair_has_configuration:
  assumes "even (length arr)" "distinct arr" "inj_on player_number (set arr)"
    and "new_pairing players arr = Inr e0" "run e0 calls = (returned, s)"
    and "a \<in> set arr" "b \<in> set arr" "a \<noteq> b" "canonical a b \<notin> played_matches s"
  shows "\<exists>c\<in>set (possibles_configurations s). canonical a b \<in> c"
proof -
  note e0 = new_pairing_Inr[OF assms(4)]
  have inv: "engine_invariant e0" by (rule new_pairing_invariant[OF assms(1,2,4)])
  have p0: "possibles_configurations e0
      = filter (\<lambda>c. c \<inter> played_matches e0 = {}) (schedule arr)"
    by (simp add: e0)
  from run_reconstruct[OF inv p0 assms(5)]
  have ps: "possibles_configurations s
      = filter (\<lambda>c. c \<inter> played_matches s = {}) (schedule arr)" by blast
  have played: "played_matches s = \<Union>(set returned)"
    using run_played[OF inv assms(5)] by (simp add: e0)
  have sub: "set returned \<subseteq> set (schedule arr)"
    using run_invariant[OF inv assms(5)] by (simp add: e0)
  from schedule_has_pair[OF assms(1-3) assms(6-8)]
  obtain c where c: "c \<in> set (schedule arr)" "canonical a b \<in> c" by blast
  have "c \<inter> played_matches s = {}"
  proof (rule ccontr)
    assume "c \<inter> played_matches s \<noteq> {}"
    then obtain m d where "m \<in> c" "d \<in> set returned" "m \<in> d"
      unfolding played by blast
    with sub have "d \<in> set (schedule arr)" by blast
    from disjoint_configurations_same[OF schedule_invariant[OF assms(1,2), THEN conjunct1]
        c(1) this \<open>m \<in> c\<close> \<open>m \<in> d\<close>]
    have "c = d" .
    with c(2) \<open>d \<in> set returned\<close> have "canonical a b \<in> played_matches s"
      unfolding played by blast
    with assms(9) show False by simp
  qed
  with c show ?thesis unfolding ps by auto
qed

lemma ranking_refines_spec:
  assumes "ranking_well_formed d"
  shows "generate_next_round_from_ranking s d = Inr (spec_select_by_ranking s d)"
proof -
  have sk: "sorted_keys (map fst d) = Inr (rank_keys d)"
    unfolding rank_keys_def by (rule sorted_keys_numeric[OF well_formed_keys[OF assms]])
  have lk: "\<forall>k\<in>set (rank_keys d). \<exists>players. map_of d k = Some players \<and> (\<forall>p\<in>set players. has_number p)"
    using well_formed_lookup[OF assms] by (simp add: rank_keys_def)
  have "\<forall>p\<in>set ([]::player list). has_number p" by simp
  from ranking_loop_refine[OF lk this, of s]
  show ?thesis
    by (simp add: generate_next_round_from_ranking_def sk spec_select_by_ranking_def pools_def)
qed

text \<open>
  C6. For a ranking whose keys are numeric ASCII strings and whose players are
  well-formed identifiers,
  \<open>generate_next_round_from_ranking\<close> computes what the specification describes: the keys
  in ascending numeric order, the pool accumulated key by key, at each stage the scan of
  the pairs \<open>(i, j)\<close>, \<open>i\<close> before \<open>j\<close>, in canonical form, for the first one that is not
  in the played-match memory, and the anchor-based selection on that pair; the first stage
  whose selection returns a configuration decides. A configuration that is returned is a
  remaining one that contains the first unplayed pair of its stage, and it is removed and
  recorded. If no unplayed pair of the fully accumulated pool is in a remaining
  configuration, the result is \<open>None\<close> and the instance is unchanged. In a state reached
  from a fresh engine over an even-sized arrangement of distinct players with pairwise
  different player numbers, every unplayed pair of two different roster players is in a
  remaining configuration, so there the first unplayed pair found is the one that decides.
\<close>

theorem ranking_selection_refines:
  assumes "ranking_well_formed d"
  shows "generate_next_round_from_ranking s d = Inr (spec_select_by_ranking s d)
       \<and> (\<forall>c s'. spec_select_by_ranking s d = (Some c, s') \<longrightarrow>
             (\<exists>pool m. pool \<in> set (pools d)
                \<and> find (\<lambda>m. m \<notin> played_matches s) (scan_pairs pool) = Some m
                \<and> m \<in> c \<and> c \<in> set (possibles_configurations s)
                \<and> s' = s\<lparr>possibles_configurations := remove1 c (possibles_configurations s),
                         played_matches := played_matches s \<union> c\<rparr>))
       \<and> ((\<forall>m\<in>set (scan_pairs (concat (map (players_of d) (rank_keys d)))).
              m \<notin> played_matches s \<longrightarrow> (\<forall>c\<in>set (possibles_configurations s). m \<notin> c))
            \<longrightarrow> spec_select_by_ranking s d = (None, s))
       \<and> (even (length arr) \<and> distinct arr \<and> inj_on player_number (set arr)
            \<and> new_pairing players arr = Inr e0 \<and> run e0 calls = (returned, s)
            \<and> a \<in> set arr \<and> b \<in> set arr \<and> a \<noteq> b \<and> canonical a b \<notin> played_matches s
            \<longrightarrow> (\<exists>c\<in>set (possibles_configurations s). canonical a b \<in> c))"
proof (intro conjI allI impI)
  show "generate_next_round_from_ranking s d = Inr (spec_select_by_ranking s d)"
    by (rule ranking_refines_spec[OF assms])
next
  fix c s' assume a: "spec_select_by_ranking s d = (Some c, s')"
  then obtain pool where f: "find (\<lambda>pool. fst (spec_pairwise_scan s pool) \<noteq> None) (pools d) = Some pool"
    and sc: "spec_pairwise_scan s pool = (Some c, s')"
    by (cases "find (\<lambda>pool. fst (spec_pairwise_scan s pool) \<noteq> None) (pools d)")
       (simp_all add: spec_select_by_ranking_def)
  from f have "pool \<in> set (pools d)" by (auto simp: find_Some_iff)
  with spec_pairwise_scan_cases[OF sc]
  show "\<exists>pool m. pool \<in> set (pools d)
          \<and> find (\<lambda>m. m \<notin> played_matches s) (scan_pairs pool) = Some m
          \<and> m \<in> c \<and> c \<in> set (possibles_configurations s)
          \<and> s' = s\<lparr>possibles_configurations := remove1 c (possibles_configurations s),
                   played_matches := played_matches s \<union> c\<rparr>"
    by blast
next
  assume a: "\<forall>m\<in>set (scan_pairs (concat (map (players_of d) (rank_keys d)))).
              m \<notin> played_matches s \<longrightarrow> (\<forall>c\<in>set (possibles_configurations s). m \<notin> c)"
  have "fst (spec_pairwise_scan s pool) = None" if "pool \<in> set (pools d)" for pool
  proof -
    obtain r s' where sc: "spec_pairwise_scan s pool = (r, s')"
      by (cases "spec_pairwise_scan s pool")
    from that obtain rest where "concat (map (players_of d) (rank_keys d)) = pool @ rest"
      using accumulate_prefix[of pool "[]" "map (players_of d) (rank_keys d)"]
      by (auto simp: pools_def)
    then have sub: "set (scan_pairs pool) \<subseteq> set (scan_pairs (concat (map (players_of d) (rank_keys d))))"
      using scan_pairs_append_subset[of pool rest] by simp
    from spec_pairwise_scan_cases[OF sc] consider
      (none) "r = None"
    | (sel) m c where "find (\<lambda>m. m \<notin> played_matches s) (scan_pairs pool) = Some m"
        "c \<in> set (possibles_configurations s)" "m \<in> c"
      by blast
    then show ?thesis
    proof cases
      case none
      with sc show ?thesis by simp
    next
      case sel
      from sel(1) have "m \<in> set (scan_pairs pool)" "m \<notin> played_matches s"
        by (auto simp: find_Some_iff)
      with sub a sel(2,3) have False by blast
      then show ?thesis ..
    qed
  qed
  then have "find (\<lambda>pool. fst (spec_pairwise_scan s pool) \<noteq> None) (pools d) = None"
    by (simp add: find_None_iff)
  then show "spec_select_by_ranking s d = (None, s)"
    by (simp add: spec_select_by_ranking_def)
next
  assume h: "even (length arr) \<and> distinct arr \<and> inj_on player_number (set arr)
            \<and> new_pairing players arr = Inr e0 \<and> run e0 calls = (returned, s)
            \<and> a \<in> set arr \<and> b \<in> set arr \<and> a \<noteq> b \<and> canonical a b \<notin> played_matches s"
  then have "even (length arr)" "distinct arr" "inj_on player_number (set arr)"
    "new_pairing players arr = Inr e0" "run e0 calls = (returned, s)"
    "a \<in> set arr" "b \<in> set arr" "a \<noteq> b" "canonical a b \<notin> played_matches s"
    by simp_all
  then show "\<exists>c\<in>set (possibles_configurations s). canonical a b \<in> c"
    by (rule unplayed_pair_has_configuration)
qed

theorem ranking_selection_refines_witness:
  "generate_next_round_from_ranking (scenario_state [scenario_c1, scenario_c2] scenario_c3)
       scenario_ranking
     = Inr (spec_select_by_ranking (scenario_state [scenario_c1, scenario_c2] scenario_c3)
              scenario_ranking)
   \<and> spec_select_by_ranking (scenario_state [scenario_c1, scenario_c2] scenario_c3)
        scenario_ranking
     = (Some scenario_c2, scenario_state [scenario_c1] (scenario_c3 \<union> scenario_c2))"
proof -
  have h: "ranking_well_formed scenario_ranking" by code_simp
  have v: "spec_select_by_ranking (scenario_state [scenario_c1, scenario_c2] scenario_c3)
        scenario_ranking
     = (Some scenario_c2, scenario_state [scenario_c1] (scenario_c3 \<union> scenario_c2))"
    by code_simp
  from ranking_selection_refines[OF h, THEN conjunct1] v show ?thesis by (rule conjI)
qed

subsection \<open>Exhaustion\<close>

lemma from_match_empty:
  assumes "possibles_configurations s = []"
  shows "generate_round_configuration_from_match s m = (None, s)"
  using assms by (simp add: generate_round_configuration_from_match_def)

lemma ranking_empty:
  assumes "possibles_configurations s = []"
  shows "generate_next_round_from_ranking s d = Inr (None, s)
       \<or> (\<exists>err. generate_next_round_from_ranking s d = Inl err)"
proof (cases "generate_next_round_from_ranking s d")
  case (Inl err)
  then show ?thesis by blast
next
  case (Inr res)
  obtain r s' where res: "res = (r, s')" by (cases res)
  from generate_next_round_from_ranking_Inr[OF Inr[unfolded res]] consider
    (none) "r = None" "s' = s"
  | (sel) m c where "r = Some c" "generate_round_configuration_from_match s m = (r, s')"
    by blast
  then show ?thesis
  proof cases
    case none
    with Inr res show ?thesis by simp
  next
    case sel
    with from_match_empty[OF assms, of m] have False by simp
    then show ?thesis ..
  qed
qed

lemma ranking_empty_well_formed:
  assumes "possibles_configurations s = []" "ranking_well_formed d"
  shows "generate_next_round_from_ranking s d = Inr (None, s)"
proof -
  have eq: "generate_next_round_from_ranking s d = Inr (spec_select_by_ranking s d)"
    by (rule ranking_refines_spec[OF assms(2)])
  from ranking_empty[OF assms(1), of d] show ?thesis
  proof
    assume "generate_next_round_from_ranking s d = Inr (None, s)"
    then show ?thesis .
  next
    assume "\<exists>err. generate_next_round_from_ranking s d = Inl err"
    then obtain err where "generate_next_round_from_ranking s d = Inl err" ..
    with eq have False by simp
    then show ?thesis ..
  qed
qed

lemma step_empty:
  assumes "possibles_configurations s = []"
  shows "step s call = (None, s)"
proof -
  obtain r s' where st: "step s call = (r, s')" by (cases "step s call")
  from step_cases[OF st] consider
    (none) "r = None" "s' = s"
  | (sel) c where "c \<in> set (possibles_configurations s)"
    by blast
  then show ?thesis
  proof cases
    case none
    with st show ?thesis by simp
  next
    case sel
    with assms have False by simp
    then show ?thesis ..
  qed
qed

text \<open>
  C4 (as amended). For an engine freshly built from a roster of \<open>N\<close> players, once a
  sequence of selection calls has returned \<open>N - 1\<close> configurations the remaining schedule
  is empty, and no further selection attempt returns a configuration or match. The
  ranking-weighted selection reports this by returning \<open>None\<close>, for every well-formed
  ranking, with the instance unchanged (for any other ranking it returns \<open>None\<close> or
  raises while reading the ranking); so does the anchor-based selection. The first-round
  selection does not return a no-result value: on the empty schedule it raises
  \<open>IndexError\<close>, the exception of \<open>pop\<close> on an empty list.
\<close>

theorem exhaustion_after_all_rounds:
  assumes "randomize_players players arr" "new_pairing players arr = Inr e"
    and "run e calls = (returned, e')" "length returned = length players - 1"
  shows "possibles_configurations e' = []
       \<and> generate_first_round_configuration e' = Inl IndexError
       \<and> (\<forall>m. generate_round_configuration_from_match e' m = (None, e'))
       \<and> (\<forall>d. ranking_well_formed d \<longrightarrow> generate_next_round_from_ranking e' d = Inr (None, e'))
       \<and> (\<forall>d c s'. generate_next_round_from_ranking e' d \<noteq> Inr (Some c, s'))"
proof -
  from assms(1) have "mset arr = mset players" by (simp add: randomize_players_def)
  then have len: "length arr = length players" by (rule mset_eq_length)
  have "possibles_configurations e = schedule arr"
    by (simp add: new_pairing_Inr[OF assms(2)])
  then have "length (possibles_configurations e) = length players - 1"
    by (simp add: length_schedule len)
  with run_length[OF assms(3)] assms(4) have empty: "possibles_configurations e' = []"
    by simp
  have never: "generate_next_round_from_ranking e' d \<noteq> Inr (Some c, s')" for d c s'
  proof
    assume a: "generate_next_round_from_ranking e' d = Inr (Some c, s')"
    from ranking_empty[OF empty, of d] show False
    proof
      assume "generate_next_round_from_ranking e' d = Inr (None, e')"
      with a show False by simp
    next
      assume "\<exists>err. generate_next_round_from_ranking e' d = Inl err"
      with a show False by auto
    qed
  qed
  show ?thesis
    using empty first_round_Nil[OF empty] from_match_empty[OF empty]
      ranking_empty_well_formed[OF empty] never
    by (intro conjI allI impI)
qed

theorem exhaustion_after_all_rounds_witness:
  "possibles_configurations (scenario_state [] (scenario_c3 \<union> scenario_c2 \<union> scenario_c1)) = []
   \<and> generate_first_round_configuration
        (scenario_state [] (scenario_c3 \<union> scenario_c2 \<union> scenario_c1)) = Inl IndexError"
proof -
  have h1: "randomize_players scenario_players scenario_players"
    by (simp add: randomize_players_def)
  have h2: "new_pairing scenario_players scenario_players
              = Inr (scenario_state [scenario_c1, scenario_c2, scenario_c3] {})"
    by code_simp
  have h3: "run (scenario_state [scenario_c1, scenario_c2, scenario_c3] {})
              [First_round, From_ranking scenario_ranking, First_round]
            = ([scenario_c3, scenario_c2, scenario_c1],
               scenario_state [] (scenario_c3 \<union> scenario_c2 \<union> scenario_c1))"
    by code_simp
  have h4: "length [scenario_c3, scenario_c2, scenario_c1] = length scenario_players - 1"
    by (simp add: scenario_players_def)
  note t = exhaustion_after_all_rounds[OF h1 h2 h3 h4]
  show ?thesis using t[THEN conjunct1] t[THEN conjunct2, THEN conjunct1] by (rule conjI)
qed

text \<open>The exhausted engine of the scenario: the first-round selection raises where the
  ranking-weighted selection returns \<open>None\<close>.\<close>

theorem first_round_raises_counterexample:
  "generate_first_round_configuration
       (scenario_state [] (scenario_c3 \<union> scenario_c2 \<union> scenario_c1))
     = Inl IndexError
   \<and> generate_next_round_from_ranking
       (scenario_state [] (scenario_c3 \<union> scenario_c2 \<union> scenario_c1)) scenario_ranking
     = Inr (None, scenario_state [] (scenario_c3 \<union> scenario_c2 \<union> scenario_c1))"
  by code_simp

subsection \<open>Identifiers without a player number\<close>

lemma str_split_nonempty: "str_split sep s \<noteq> []"
  by (induction s) (simp_all split: list.splits)

lemma length_str_split: "length (str_split sep s) = Suc (length (filter (\<lambda>c. c = sep) s))"
proof (induction s)
  case Nil
  show ?case by simp
next
  case (Cons c cs)
  obtain f fs where "str_split sep cs = f # fs"
    using str_split_nonempty[of sep cs] by (cases "str_split sep cs") auto
  with Cons show ?case by simp
qed

lemma second_field_iff: "1 < length (str_split sep s) \<longleftrightarrow> sep \<in> set s"
proof -
  have "0 < length (filter (\<lambda>c. c = sep) s) \<longleftrightarrow> sep \<in> set s"
    by (induction s) auto
  then show ?thesis by (simp add: length_str_split)
qed

lemma get_player_number_fields:
  "get_player_number p =
     (if 1 < length (str_split CHR ''_'' p) then py_int (str_split CHR ''_'' p ! 1)
      else Inl IndexError)"
proof (cases "str_split CHR ''_'' p")
  case Nil
  then show ?thesis by (simp add: get_player_number_def)
next
  case (Cons f fs)
  then show ?thesis by (cases fs) (simp_all add: get_player_number_def)
qed

lemma has_number_iff: "has_number p \<longleftrightarrow> (\<exists>n. get_player_number p = Inr n)"
  by (cases "get_player_number p") (simp_all add: has_number_def)

lemma scan_raw_inner:
  "scan_raw s (map (\<lambda>j. (l ! i, l ! j)) js @ others)
   = (case try_inner s l i js of Some r \<Rightarrow> r | None \<Rightarrow> scan_raw s others)"
  by (induction js) (simp_all split: sum.splits)

lemma scan_raw_outer:
  "try_outer s l idxs
   = scan_raw s (concat (map (\<lambda>i. map (\<lambda>j. (l ! i, l ! j)) [i + 1..<length l]) idxs))"
proof (induction idxs)
  case Nil
  show ?case by simp
next
  case (Cons i idxs)
  show ?case
    unfolding try_outer.simps list.map concat.simps scan_raw_inner Cons.IH ..
qed

lemma try_to_generate_next_round_raw:
  "try_to_generate_next_round s l = scan_raw s (ordered_pairs l)"
  by (simp only: try_to_generate_next_round_def scan_raw_outer ordered_pairs_index)

lemma scan_raw_skip:
  assumes "\<forall>xy\<in>set pre. has_number (fst xy) \<and> has_number (snd xy)
              \<and> canonical (fst xy) (snd xy) \<in> played_matches s"
  shows "scan_raw s (pre @ rest) = scan_raw s rest"
  using assms by (induction pre) (simp_all add: sorted_pair_canonical)

lemma scan_raw_fails:
  assumes "\<not> (has_number a \<and> has_number b)"
  shows "\<exists>err. scan_raw s ((a, b) # post) = Inl err"
proof (cases "sorted_pair a b")
  case (Inl err)
  then show ?thesis by simp
next
  case (Inr m)
  from sorted_pair_Inr[OF this] assms show ?thesis by simp
qed

lemma scan_raw_selects:
  assumes "has_number a" "has_number b" "canonical a b \<notin> played_matches s"
  shows "scan_raw s ((a, b) # post) = Inr (generate_round_configuration_from_match s (canonical a b))"
  using assms by (simp add: sorted_pair_canonical)

lemma generate_pairing_loop_numbers:
  "generate_pairing_loop l idxs acc = Inr c \<Longrightarrow>
   \<forall>i\<in>set idxs. has_number (l ! i) \<and> has_number (l ! (length l - i - 1))"
proof (induction idxs arbitrary: acc)
  case Nil
  show ?case by simp
next
  case (Cons i idxs)
  from Cons.prems obtain m where m: "sorted_pair (l ! i) (l ! (length l - i - 1)) = Inr m"
    and rest: "generate_pairing_loop l idxs (insert m acc) = Inr c"
    by (cases "sorted_pair (l ! i) (l ! (length l - i - 1))") simp_all
  from sorted_pair_Inr[OF m] Cons.IH[OF rest] show ?case by simp
qed

lemma generate_pairing_numbers:
  assumes "generate_pairing l = Inr c" "i < length l div 2"
  shows "has_number (l ! i) \<and> has_number (l ! (length l - i - 1))"
  using generate_pairing_loop_numbers[OF assms(1)[unfolded generate_pairing_def]] assms(2)
  by simp

lemma circle_loop_rounds:
  "circle_loop n i cur confs = Inr res \<Longrightarrow> 2 \<le> length cur \<or> n \<le> i \<Longrightarrow>
   1 \<le> k \<Longrightarrow> k \<le> n - i \<Longrightarrow> \<exists>c. generate_pairing ((rearranged ^^ k) cur) = Inr c"
proof (induction n i cur confs arbitrary: k rule: circle_loop.induct)
  case (1 n i cur confs)
  from "1.prems"(3,4) have True: "i < n" by simp
  with "1.prems"(2) have len: "2 \<le> length cur" by simp
  then have ne: "cur \<noteq> []" by auto
  have rl: "rearrange_list cur = Inr (rearranged cur)" by (rule rearrange_list_rearranged[OF ne])
  from "1.prems"(1) True rl obtain c where
    gp: "generate_pairing (rearranged cur) = Inr c"
    and rest: "circle_loop n (i + 1) (rearranged cur) (confs @ [c]) = Inr res"
    by (subst (asm) circle_loop.simps) (cases "generate_pairing (rearranged cur)", simp_all)
  show ?case
  proof (cases "k = 1")
    case True
    with gp show ?thesis by simp
  next
    case False
    with "1.prems"(3) obtain j where k: "k = Suc j" and j: "1 \<le> j" by (cases k) auto
    have len': "2 \<le> length (rearranged cur) \<or> n \<le> i + 1"
      using len by (simp add: length_rearranged)
    have "j \<le> n - (i + 1)" using "1.prems"(4) k by simp
    from "1.IH"[OF True rl gp rest len' j this]
    show ?thesis by (simp add: k funpow_swap1)
  qed
qed

lemma seat_covered:
  fixes N :: nat
  assumes "s < N" "even N \<or> s \<noteq> (N - 1) div 2"
  shows "\<exists>i<N div 2. s = i \<or> s = N - i - 1"
proof (cases "s < N div 2")
  case True
  then show ?thesis by blast
next
  case False
  have "N - s - 1 < N div 2" using assms False by (auto elim!: evenE oddE)
  moreover have "s = N - (N - s - 1) - 1" using assms(1) by simp
  ultimately show ?thesis by blast
qed

lemma rearranged_shift:
  assumes "1 \<le> s" "s < length l - 1"
  shows "rearranged l ! (s + 1) = l ! s"
proof -
  from assms have "2 \<le> length l" by simp
  then obtain x xs where l: "l = x # xs" and ne: "xs \<noteq> []" by (rule two_le_length_Cons)
  from assms(1) obtain t where s: "s = Suc t" by (cases s) auto
  with assms(2) have t: "t < length (butlast xs)" by (simp add: l)
  then have "butlast xs ! t = xs ! t" by (rule nth_butlast)
  then show ?thesis by (simp add: l s rearranged_Cons[OF ne])
qed

lemma every_player_paired:
  assumes "2 \<le> length arr" "p \<in> set arr"
  shows "\<exists>k i. 1 \<le> k \<and> k \<le> length arr - 1 \<and> i < length arr div 2
           \<and> ((rearranged ^^ k) arr ! i = p \<or> (rearranged ^^ k) arr ! (length arr - i - 1) = p)"
proof -
  define N where "N = length arr"
  define l1 where "l1 = rearranged arr"
  have len1: "length l1 = N" by (simp add: l1_def N_def length_rearranged[OF assms(1)])
  have "p \<in> set l1" using assms(2) by (simp add: l1_def set_rearranged[OF assms(1)])
  then obtain s where s: "s < N" "l1 ! s = p" by (auto simp: in_set_conv_nth len1)
  have f1: "(rearranged ^^ 1) arr = l1" by (simp add: l1_def)
  show ?thesis
  proof (cases "even N \<or> s \<noteq> (N - 1) div 2")
    case True
    from seat_covered[OF s(1) True] obtain i where "i < N div 2" "s = i \<or> s = N - i - 1"
      by blast
    with s(2) have "i < N div 2 \<and> (l1 ! i = p \<or> l1 ! (N - i - 1) = p)" by auto
    moreover have "1 \<le> N - 1" using assms(1) by (simp add: N_def)
    ultimately show ?thesis unfolding N_def[symmetric] using f1 by (metis le_refl)
  next
    case False
    then have odd: "odd N" and mid: "s = (N - 1) div 2" by simp_all
    from odd assms(1) have N3: "3 \<le> N" by (auto simp: N_def elim!: oddE)
    define l2 where "l2 = rearranged l1"
    have len2: "length l2 = N" using N3 by (simp add: l2_def length_rearranged len1)
    have s1: "1 \<le> s" "s < length l1 - 1" using mid N3 odd by (auto simp: len1 elim!: oddE)
    from rearranged_shift[OF s1] have p2: "l2 ! (s + 1) = p" by (simp add: l2_def s(2))
    have "s + 1 < N" using s1 by (simp add: len1)
    moreover have "even N \<or> s + 1 \<noteq> (N - 1) div 2" using mid by simp
    ultimately obtain i where "i < N div 2" "s + 1 = i \<or> s + 1 = N - i - 1"
      using seat_covered by blast
    with p2 have c: "i < N div 2 \<and> (l2 ! i = p \<or> l2 ! (N - i - 1) = p)" by auto
    have f2: "(rearranged ^^ 2) arr = l2" by (simp add: l2_def l1_def numeral_2_eq_2)
    have "(1::nat) \<le> 2" "2 \<le> N - 1" using N3 by simp_all
    with c show ?thesis unfolding N_def[symmetric] using f2 by metis
  qed
qed

lemma generation_needs_numbers:
  assumes "initial_configuration s = Some arr" "2 \<le> length arr" "p \<in> set arr" "\<not> has_number p"
  shows "\<exists>err. generate_circle_configurations s = Inl err"
proof (cases "generate_circle_configurations s")
  case (Inl err)
  then show ?thesis by blast
next
  case (Inr s')
  then obtain res where cl: "circle_loop (length arr) 1 arr (possibles_configurations s) = Inr res"
    using assms(1)
    by (cases "circle_loop (length arr) 1 arr (possibles_configurations s)")
       (simp_all add: generate_circle_configurations_def)
  from every_player_paired[OF assms(2,3)] obtain k i where
    k: "1 \<le> k" "k \<le> length arr - 1" and i: "i < length arr div 2"
    and p: "(rearranged ^^ k) arr ! i = p \<or> (rearranged ^^ k) arr ! (length arr - i - 1) = p"
    by blast
  have "2 \<le> length arr \<or> length arr \<le> 1" using assms(2) by simp
  from circle_loop_rounds[OF cl this k]
  obtain c where gp: "generate_pairing ((rearranged ^^ k) arr) = Inr c" by blast
  have len: "length ((rearranged ^^ k) arr) = length arr"
    by (rule length_funpow_rearranged[OF assms(2)])
  from generate_pairing_numbers[OF gp, of i] i p have "has_number p"
    by (auto simp: len)
  with assms(4) show ?thesis by simp
qed

lemma not_digit_sign: "\<not> is_digit CHR ''-''" "\<not> is_digit CHR ''+''"
  by (simp_all add: is_digit_def)

lemma grouped_digits_hd: "grouped_digits (c # cs) \<Longrightarrow> is_digit c"
  by (cases cs) simp_all

lemma grouped_digits_plain:
  "CHR ''_'' \<notin> set ds \<Longrightarrow> grouped_digits ds \<longleftrightarrow> ds \<noteq> [] \<and> list_all is_digit ds"
  by (induction ds rule: grouped_digits.induct) auto

lemma str_split_fields: "f \<in> set (str_split sep s) \<Longrightarrow> sep \<notin> set f"
proof (induction s arbitrary: f)
  case Nil
  then show ?case by simp
next
  case (Cons c cs)
  obtain g gs where sp: "str_split sep cs = g # gs"
    using str_split_nonempty[of sep cs] by (cases "str_split sep cs") auto
  show ?case
  proof (cases "c = sep")
    case True
    with Cons.prems have "f = [] \<or> f \<in> set (str_split sep cs)" by simp
    with Cons.IH show ?thesis by auto
  next
    case False
    with Cons.prems sp have "f = c # g \<or> f \<in> set gs" by simp
    moreover have "sep \<notin> set g" using Cons.IH[of g] sp by simp
    moreover have "f \<in> set gs \<Longrightarrow> sep \<notin> set f" using Cons.IH[of f] sp by simp
    ultimately show ?thesis using False by auto
  qed
qed

lemma second_field_plain:
  "1 < length (str_split sep s) \<Longrightarrow> sep \<notin> set (str_split sep s ! 1)"
  by (rule str_split_fields[of _ sep s]) (rule nth_mem)

lemma set_strip: "set (strip s) \<subseteq> set s"
proof -
  have "set (strip s) = set (dropWhile is_space (rev (dropWhile is_space s)))"
    by (simp add: strip_def)
  also have "\<dots> \<subseteq> set (rev (dropWhile is_space s))" by (rule set_dropWhileD[THEN subsetI])
  also have "\<dots> \<subseteq> set s" using set_dropWhileD[of _ is_space s] by auto
  finally show ?thesis .
qed

lemma decimal_literal_hd: "decimal_literal (c # cs) \<Longrightarrow> is_digit c"
  unfolding decimal_literal_def by (rule grouped_digits_hd) (rule conjunct1)

lemma decimal_literal_Nil: "\<not> decimal_literal []"
  by (simp add: decimal_literal_def)

lemma length_strip: "length (strip s) \<le> length s"
proof -
  have "length (strip s) \<le> length (dropWhile is_space s)"
    using length_dropWhile_le[of is_space "rev (dropWhile is_space s)"] by (simp add: strip_def)
  also have "\<dots> \<le> length s" by (rule length_dropWhile_le)
  finally show ?thesis .
qed

lemma py_int_Inr_iff:
  "py_int f = Inr n \<longleftrightarrow>
     (\<exists>ds. decimal_literal ds
        \<and> (strip f = ds \<and> n = digits_value (filter is_digit ds)
           \<or> strip f = CHR ''+'' # ds \<and> n = digits_value (filter is_digit ds)
           \<or> strip f = CHR ''-'' # ds \<and> n = - digits_value (filter is_digit ds)))"
proof (cases "strip f")
  case Nil
  then show ?thesis by (auto simp: py_int_def decimal_literal_Nil)
next
  case (Cons c cs)
  consider (minus) "c = CHR ''-''" | (plus) "c = CHR ''+''" | (other) "c \<noteq> CHR ''-''" "c \<noteq> CHR ''+''"
    by blast
  then show ?thesis
  proof cases
    case minus
    have "py_int f = (if decimal_literal cs then Inr (- digits_value (filter is_digit cs))
                      else Inl ValueError)"
      by (simp add: py_int_def Cons minus)
    then show ?thesis using not_digit_sign decimal_literal_hd by (auto simp: Cons minus)
  next
    case plus
    have "py_int f = (if decimal_literal cs then Inr (digits_value (filter is_digit cs))
                      else Inl ValueError)"
      by (simp add: py_int_def Cons plus)
    then show ?thesis using not_digit_sign decimal_literal_hd by (auto simp: Cons plus)
  next
    case other
    have "py_int f = (if decimal_literal (c # cs) then Inr (digits_value (filter is_digit (c # cs)))
                      else Inl ValueError)"
      by (simp add: py_int_def Cons other)
    then show ?thesis using other by (auto simp: Cons)
  qed
qed

lemma py_int_plain:
  assumes "CHR ''_'' \<notin> set f" and short: "length f \<le> int_max_str_digits"
  shows "py_int f = Inr n \<longleftrightarrow>
     (\<exists>ds. ds \<noteq> [] \<and> list_all is_digit ds
        \<and> (strip f = ds \<and> n = digits_value ds
           \<or> strip f = CHR ''+'' # ds \<and> n = digits_value ds
           \<or> strip f = CHR ''-'' # ds \<and> n = - digits_value ds))"
proof -
  have grouped: "grouped_digits ds \<longleftrightarrow> ds \<noteq> [] \<and> list_all is_digit ds"
    if "set ds \<subseteq> set (strip f)" for ds
    using that assms(1) set_strip[of f] by (intro grouped_digits_plain) auto
  have len: "length (filter is_digit ds) \<le> int_max_str_digits"
    if "length ds \<le> length (strip f)" for ds
  proof -
    have "length (filter is_digit ds) \<le> length ds" by (rule length_filter_le)
    also have "\<dots> \<le> length (strip f)" by (rule that)
    also have "\<dots> \<le> length f" by (rule length_strip)
    finally show ?thesis using short by simp
  qed
  have plain: "decimal_literal ds \<longleftrightarrow> ds \<noteq> [] \<and> list_all is_digit ds"
    if "set ds \<subseteq> set (strip f)" "length ds \<le> length (strip f)" for ds
    using grouped[OF that(1)] len[OF that(2)] by (simp add: decimal_literal_def)
  have all: "filter is_digit ds = ds" if "list_all is_digit ds" for ds
    using that by (simp add: list_all_iff)
  show ?thesis
  proof
    assume "py_int f = Inr n"
    then obtain ds where g: "decimal_literal ds"
      and c: "strip f = ds \<and> n = digits_value (filter is_digit ds)
           \<or> strip f = CHR ''+'' # ds \<and> n = digits_value (filter is_digit ds)
           \<or> strip f = CHR ''-'' # ds \<and> n = - digits_value (filter is_digit ds)"
      unfolding py_int_Inr_iff by blast
    from c have "set ds \<subseteq> set (strip f)" "length ds \<le> length (strip f)" by auto
    from plain[OF this] g have d: "ds \<noteq> []" "list_all is_digit ds" by simp_all
    from c all[OF d(2)] d show "\<exists>ds. ds \<noteq> [] \<and> list_all is_digit ds
        \<and> (strip f = ds \<and> n = digits_value ds
           \<or> strip f = CHR ''+'' # ds \<and> n = digits_value ds
           \<or> strip f = CHR ''-'' # ds \<and> n = - digits_value ds)"
      by auto
  next
    assume "\<exists>ds. ds \<noteq> [] \<and> list_all is_digit ds
        \<and> (strip f = ds \<and> n = digits_value ds
           \<or> strip f = CHR ''+'' # ds \<and> n = digits_value ds
           \<or> strip f = CHR ''-'' # ds \<and> n = - digits_value ds)"
    then obtain ds where d: "ds \<noteq> []" "list_all is_digit ds"
      and c: "strip f = ds \<and> n = digits_value ds
           \<or> strip f = CHR ''+'' # ds \<and> n = digits_value ds
           \<or> strip f = CHR ''-'' # ds \<and> n = - digits_value ds"
      by blast
    from c have "set ds \<subseteq> set (strip f)" "length ds \<le> length (strip f)" by auto
    from plain[OF this] d have g: "decimal_literal ds" by simp
    from c all[OF d(2)] g show "py_int f = Inr n"
      unfolding py_int_Inr_iff by auto
  qed
qed

text \<open>
  C10 (as amended). For ASCII identifiers: \<open>get_player_number\<close> returns an integer
  exactly when the identifier, split on \<open>'_'\<close>, has a second field that parses as a
  decimal integer (optional surrounding whitespace, an optional sign, at least one digit).
  Schedule generation over an arrangement of at least two players fails when some
  identifier of the arrangement has no such field. The pairwise scan of the ranking-weighted selection examines the
  pairs in order and stops at the first pair that has an identifier without such a field
  or is not in the played-match memory: it fails in the first case, and in the second it
  returns the anchor-based selection on that pair without examining any later identifier.
\<close>

theorem canonicalizing_needs_player_numbers:
  assumes "ascii_text p" "ascii_text f" "\<forall>x\<in>set arr. ascii_text x" "\<forall>x\<in>set l. ascii_text x"
  shows
  "(has_number p \<longleftrightarrow> (\<exists>n. get_player_number p = Inr n))
   \<and> (get_player_number p = Inr n
        \<longleftrightarrow> 1 < length (str_split CHR ''_'' p) \<and> py_int (str_split CHR ''_'' p ! 1) = Inr n)
   \<and> (1 < length (str_split CHR ''_'' p) \<longrightarrow> CHR ''_'' \<notin> set (str_split CHR ''_'' p ! 1))
   \<and> (CHR ''_'' \<notin> set f \<longrightarrow>
        (py_int f = Inr n
          \<longleftrightarrow> (\<exists>ds. ds \<noteq> [] \<and> list_all is_digit ds
                 \<and> (strip f = ds \<and> n = digits_value ds
                    \<or> strip f = CHR ''+'' # ds \<and> n = digits_value ds
                    \<or> strip f = CHR ''-'' # ds \<and> n = - digits_value ds))))
   \<and> (initial_configuration s = Some arr \<and> 2 \<le> length arr \<and> q \<in> set arr \<and> \<not> has_number q
        \<longrightarrow> (\<exists>err. generate_circle_configurations s = Inl err))
   \<and> (ordered_pairs l = pre @ (a, b) # post
        \<and> (\<forall>xy\<in>set pre. has_number (fst xy) \<and> has_number (snd xy)
                \<and> canonical (fst xy) (snd xy) \<in> played_matches t)
        \<longrightarrow> (\<not> (has_number a \<and> has_number b)
               \<longrightarrow> (\<exists>err. try_to_generate_next_round t l = Inl err))
            \<and> (has_number a \<and> has_number b \<and> canonical a b \<notin> played_matches t
               \<longrightarrow> try_to_generate_next_round t l
                     = Inr (generate_round_configuration_from_match t (canonical a b))))"
proof (intro conjI impI)
  show "has_number p \<longleftrightarrow> (\<exists>n. get_player_number p = Inr n)" by (rule has_number_iff)
  show "get_player_number p = Inr n
        \<longleftrightarrow> 1 < length (str_split CHR ''_'' p) \<and> py_int (str_split CHR ''_'' p ! 1) = Inr n"
    by (simp add: get_player_number_fields)
next
  assume "1 < length (str_split CHR ''_'' p)"
  then show "CHR ''_'' \<notin> set (str_split CHR ''_'' p ! 1)" by (rule second_field_plain)
next
  assume "CHR ''_'' \<notin> set f"
  moreover have "length f \<le> int_max_str_digits" using assms(2) by (simp add: ascii_text_def)
  ultimately show "py_int f = Inr n
        \<longleftrightarrow> (\<exists>ds. ds \<noteq> [] \<and> list_all is_digit ds
               \<and> (strip f = ds \<and> n = digits_value ds
                  \<or> strip f = CHR ''+'' # ds \<and> n = digits_value ds
                  \<or> strip f = CHR ''-'' # ds \<and> n = - digits_value ds))"
    by (rule py_int_plain)
next
  assume "initial_configuration s = Some arr \<and> 2 \<le> length arr \<and> q \<in> set arr \<and> \<not> has_number q"
  then show "\<exists>err. generate_circle_configurations s = Inl err"
    using generation_needs_numbers[of s arr q] by blast
next
  assume h: "ordered_pairs l = pre @ (a, b) # post
        \<and> (\<forall>xy\<in>set pre. has_number (fst xy) \<and> has_number (snd xy)
                \<and> canonical (fst xy) (snd xy) \<in> played_matches t)"
  assume "\<not> (has_number a \<and> has_number b)"
  from scan_raw_fails[OF this, of t post]
  show "\<exists>err. try_to_generate_next_round t l = Inl err"
    using h by (simp add: try_to_generate_next_round_raw scan_raw_skip)
next
  assume h: "ordered_pairs l = pre @ (a, b) # post
        \<and> (\<forall>xy\<in>set pre. has_number (fst xy) \<and> has_number (snd xy)
                \<and> canonical (fst xy) (snd xy) \<in> played_matches t)"
  assume "has_number a \<and> has_number b \<and> canonical a b \<notin> played_matches t"
  then have "scan_raw t ((a, b) # post)
      = Inr (generate_round_configuration_from_match t (canonical a b))"
    using scan_raw_selects[of a b t post] by blast
  then show "try_to_generate_next_round t l
      = Inr (generate_round_configuration_from_match t (canonical a b))"
    using h by (simp add: try_to_generate_next_round_raw scan_raw_skip)
qed

theorem canonicalizing_needs_player_numbers_witness:
  "(\<exists>err. generate_circle_configurations
             \<lparr>list_of_players = [''p_1'', ''bad''], initial_configuration = Some [''p_1'', ''bad''],
              possibles_configurations = [], played_matches = {}\<rparr> = Inl err)
   \<and> (\<exists>err. try_to_generate_next_round
               (scenario_state [scenario_c1, scenario_c2, scenario_c3] {})
               [''p_1'', ''bad'', ''p_2''] = Inl err)"
proof -
  let ?s = "\<lparr>list_of_players = [''p_1'', ''bad''], initial_configuration = Some [''p_1'', ''bad''],
              possibles_configurations = [], played_matches = {}\<rparr>"
  let ?t = "scenario_state [scenario_c1, scenario_c2, scenario_c3] {}"
  have bad: "\<not> has_number ''bad''" by code_simp
  have g: "initial_configuration ?s = Some [''p_1'', ''bad''] \<and> 2 \<le> length [''p_1'', ''bad'']
           \<and> ''bad'' \<in> set [''p_1'', ''bad''] \<and> \<not> has_number ''bad''"
    using bad by simp
  have o: "ordered_pairs [''p_1'', ''bad'', ''p_2'']
             = [] @ (''p_1'', ''bad'') # [(''p_1'', ''p_2''), (''bad'', ''p_2'')]
           \<and> (\<forall>xy\<in>set []. has_number (fst xy) \<and> has_number (snd xy)
                  \<and> canonical (fst xy) (snd xy) \<in> played_matches ?t)"
    by simp
  have nb: "\<not> (has_number ''p_1'' \<and> has_number ''bad'')" using bad by simp
  have a1: "ascii_text ''bad''" by code_simp
  have a2: "ascii_text ''1''" by code_simp
  have a3: "\<forall>x\<in>set [''p_1'', ''bad'']. ascii_text x" by code_simp
  have a4: "\<forall>x\<in>set [''p_1'', ''bad'', ''p_2'']. ascii_text x" by code_simp
  note th = canonicalizing_needs_player_numbers
    [where p = "''bad''" and f = "''1''" and s = ?s and arr = "[''p_1'', ''bad'']" and q = "''bad''"
       and l = "[''p_1'', ''bad'', ''p_2'']" and pre = "[]" and a = "''p_1''" and b = "''bad''"
       and post = "[(''p_1'', ''p_2''), (''bad'', ''p_2'')]" and t = ?t, OF a1 a2 a3 a4]
  note c4 = th[THEN conjunct2, THEN conjunct2, THEN conjunct2, THEN conjunct2, THEN conjunct1,
      THEN mp, OF g]
  note c5 = th[THEN conjunct2, THEN conjunct2, THEN conjunct2, THEN conjunct2, THEN conjunct2,
      THEN mp, OF o,
      THEN conjunct1, THEN mp, OF nb]
  from c4 c5 show ?thesis by (rule conjI)
qed

theorem scan_returns_early_counterexample:
  "get_player_number ''bad'' = Inl IndexError
   \<and> try_to_generate_next_round (scenario_state [scenario_c1, scenario_c2, scenario_c3] {})
       [''p_1'', ''p_2'', ''bad'']
     = Inr (Some scenario_c2, scenario_state [scenario_c1, scenario_c3] scenario_c2)
   \<and> generate_next_round_from_ranking (scenario_state [scenario_c1, scenario_c2, scenario_c3] {})
       [(''1'', [''p_1'']), (''2'', [''p_2'']), (''3'', [''bad'']), (''4'', [''p_3''])]
     = Inr (Some scenario_c2, scenario_state [scenario_c1, scenario_c3] scenario_c2)
   \<and> new_pairing [''bad''] [''bad'']
     = Inr \<lparr>list_of_players = [''bad''], initial_configuration = Some [''bad''],
           possibles_configurations = [], played_matches = {}\<rparr>"
  by code_simp

subsection \<open>The concrete scenario\<close>

text \<open>
  C8. With players \<open>p_1 .. p_4\<close> seated in that order, the generated schedule is
  \<open>{(p_1,p_3),(p_2,p_4)}\<close>, \<open>{(p_1,p_2),(p_3,p_4)}\<close>, \<open>{(p_1,p_4),(p_2,p_3)}\<close>, in this
  order; the first-round selection returns the last of them and leaves the first two; the
  ranking \<open>{1:[p_1], 2:[p_2], 3:[p_4], 4:[p_3]}\<close> then selects \<open>{(p_1,p_2),(p_3,p_4)}\<close>;
  a further first-round selection returns \<open>{(p_1,p_3),(p_2,p_4)}\<close>, after which nothing
  remains: one more first-round selection raises and the ranking selection returns
  \<open>None\<close>.
\<close>

theorem scenario_four_players:
  "new_pairing scenario_players scenario_players
     = Inr (scenario_state [scenario_c1, scenario_c2, scenario_c3] {})
   \<and> generate_first_round_configuration (scenario_state [scenario_c1, scenario_c2, scenario_c3] {})
     = Inr (scenario_c3, scenario_state [scenario_c1, scenario_c2] scenario_c3)
   \<and> generate_next_round_from_ranking (scenario_state [scenario_c1, scenario_c2] scenario_c3)
       scenario_ranking
     = Inr (Some scenario_c2, scenario_state [scenario_c1] (scenario_c3 \<union> scenario_c2))
   \<and> generate_first_round_configuration (scenario_state [scenario_c1] (scenario_c3 \<union> scenario_c2))
     = Inr (scenario_c1, scenario_state [] (scenario_c3 \<union> scenario_c2 \<union> scenario_c1))
   \<and> generate_first_round_configuration
       (scenario_state [] (scenario_c3 \<union> scenario_c2 \<union> scenario_c1))
     = Inl IndexError
   \<and> generate_next_round_from_ranking
       (scenario_state [] (scenario_c3 \<union> scenario_c2 \<union> scenario_c1)) scenario_ranking
     = Inr (None, scenario_state [] (scenario_c3 \<union> scenario_c2 \<union> scenario_c1))"
  by code_simp

end
